theory Spec2Isabelle
  imports Complex_Main
begin

section \<open>A* over a grid of tiles: the data model\<close>

text \<open>
  The search is the class \<open>AStarTiles\<close> (method \<open>findPath\<close> with its helpers
  \<open>__isInOpenList\<close>, \<open>__isInClosedList\<close> and \<open>__diagonal\<close>).  JavaScript numbers are
  modelled as real numbers: sums, products and comparisons are the exact ones, and
  \<open>Math.SQRT2\<close> is the square root of two.
\<close>

type_synonym pos = "int \<times> int"

abbreviation row :: "pos \<Rightarrow> int" where "row \<equiv> fst"
abbreviation col :: "pos \<Rightarrow> int" where "col \<equiv> snd"

text \<open>
  Modelled from the spec: the class \<open>TileNode\<close> (file \<open>tile-node.ts\<close>) is not among the
  sources.  A cell has the static attributes \<open>reachable\<close> and \<open>multiplier\<close> and the
  search attributes \<open>f\<close>, \<open>g\<close>, \<open>h\<close> and \<open>parent\<close>, the names \<open>findPath\<close> reads and
  writes.  A cell is owned by exactly one grid position, so a reference to a cell is
  its position \<open>(row, col)\<close> and the fields \<open>row\<close> and \<open>col\<close> are the two projections;
  \<open>parent\<close> is such a reference, or \<open>None\<close> for \<open>null\<close>.
\<close>

record TileNode =
  reachable :: bool
  multiplier :: real
  f :: real
  g :: real
  h :: real
  parent :: "pos option"

text \<open>
  Modelled from the spec: the class \<open>Grid2D\<close> (file \<open>grid-2d.ts\<close>) is not among the
  sources.  It owns a rectangular array of cells, one for each position, read with
  \<open>getNode(i, j)\<close>, has fixed \<open>numRows\<close> and \<open>numCols\<close>, and a start and a target
  reference that are unset (\<open>None\<close>) until designated.
\<close>

record Grid2D =
  numRows :: int
  numCols :: int
  nodes :: "pos \<Rightarrow> TileNode"
  startNode :: "pos option"
  targetNode :: "pos option"

definition getNode :: "Grid2D \<Rightarrow> int \<Rightarrow> int \<Rightarrow> pos" where
  "getNode G i j = (i, j)"

datatype error = TypeError | OutOfBounds | InvalidArgument

text \<open>
  The fields of \<open>AStarTiles\<close>.  A heuristic is a function that \<open>findPath\<close> calls with
  a node and with \<open>this._targetNode\<close>, which is \<open>null\<close> when the grid has no target.
  Called with a target, it is taken to return a number that depends on the two
  positions (with the static attributes of a fixed grid this is no restriction), as
  the provided \<open>__diagonal\<close> does: this is the field \<open>heuristic\<close>.  Called with
  \<open>null\<close>, it raises if it reads the target, as \<open>__diagonal\<close> does, and returns a number
  otherwise: this is the field \<open>heuristicNull\<close>, which gives for each node the error
  or the number.
\<close>

record AStarTiles =
  openList :: "pos list"
  closedList :: "pos list"
  startNodeA :: "pos option"
  targetNodeA :: "pos option"
  heuristic :: "pos \<Rightarrow> pos \<Rightarrow> real"
  heuristicNull :: "pos \<Rightarrow> error + real"

text \<open>The call \<open>this._heuristic(node, this._targetNode)\<close>.\<close>

definition callHeuristic :: "AStarTiles \<Rightarrow> pos \<Rightarrow> pos option \<Rightarrow> error + real" where
  "callHeuristic A node target =
     (case target of Some t \<Rightarrow> Inr (heuristic A node t) | None \<Rightarrow> heuristicNull A node)"

datatype outcome = Found | NoPath

definition SQRT2 :: real where
  "SQRT2 = sqrt 2"

definition diagonal :: "pos \<Rightarrow> pos \<Rightarrow> real" where
  "diagonal node target =
     (let dx = \<bar>real_of_int (col node - col target)\<bar>;
          dy = \<bar>real_of_int (row node - row target)\<bar>;
          diag = min dx dy;
          straight = dx + dy
      in straight + (SQRT2 - 2) * diag)"

text \<open>\<open>__diagonal\<close> called with \<open>null\<close> reads \<open>target.col\<close>, which raises.\<close>

definition diagonalNull :: "pos \<Rightarrow> error + real" where
  "diagonalNull node = Inl TypeError"

definition isInOpenList :: "AStarTiles \<Rightarrow> pos \<Rightarrow> bool" where
  "isInOpenList A node = (node \<in> set (openList A))"

definition isInClosedList :: "AStarTiles \<Rightarrow> pos \<Rightarrow> bool" where
  "isInClosedList A node = (node \<in> set (closedList A))"

section \<open>The body of the neighbour loop\<close>

text \<open>The guard of the \<open>continue\<close> statement (lines 181 to 185).\<close>

definition skipped :: "Grid2D \<Rightarrow> pos \<Rightarrow> pos \<Rightarrow> bool" where
  "skipped G node temp =
     (temp = node \<or>
      \<not> reachable (nodes G temp) \<or>
      \<not> reachable (nodes G (getNode G (row node) (col temp))) \<or>
      \<not> reachable (nodes G (getNode G (row temp) (col node))))"

definition moveCost :: "pos \<Rightarrow> pos \<Rightarrow> real" where
  "moveCost node temp =
     (if \<not> (row node = row temp \<or> col node = col temp) then SQRT2 else 1)"

text \<open>The four assignments \<open>temp.parent = node; temp.f = f; temp.g = g; temp.h = h\<close>.\<close>

definition assign :: "pos \<Rightarrow> pos \<Rightarrow> real \<Rightarrow> real \<Rightarrow> real \<Rightarrow> Grid2D \<Rightarrow> Grid2D" where
  "assign temp node f' g' h' G =
     G\<lparr>nodes := (nodes G)(temp := (nodes G temp)\<lparr>f := f', g := g', h := h', parent := Some node\<rparr>)\<rparr>"

text \<open>
  One pass through the body of the inner \<open>for\<close> loop, for the cell \<open>temp\<close>.  The
  result is the error that the heuristic raised, if it did, and the state: the lists
  and the grid are as they were when the heuristic raises, since nothing is assigned
  before the call.
\<close>

definition visit :: "pos option \<Rightarrow> pos \<Rightarrow> pos \<Rightarrow> AStarTiles \<times> Grid2D \<Rightarrow> error option \<times> AStarTiles \<times> Grid2D" where
  "visit target node temp AG =
     (case AG of (A, G) \<Rightarrow>
        if skipped G node temp then (None, A, G)
        else
          let cost = moveCost node temp;
              g' = g (nodes G node) + cost * multiplier (nodes G temp)
          in case callHeuristic A temp target of
               Inl e \<Rightarrow> (Some e, A, G)
             | Inr h' \<Rightarrow>
                 let f' = g' + h'
                 in if isInOpenList A temp \<or> isInClosedList A temp
                    then (if f (nodes G temp) > f' then (None, A, assign temp node f' g' h' G)
                          else (None, A, G))
                    else (None, A\<lparr>openList := openList A @ [temp]\<rparr>, assign temp node f' g' h' G))"

text \<open>
  The two nested \<open>for\<close> loops: rows \<open>iStart .. iEnd\<close>, and for each row the columns
  \<open>jStart .. jEnd\<close>, the 3 by 3 block around \<open>node\<close> clipped to the grid.
\<close>

definition block :: "Grid2D \<Rightarrow> pos \<Rightarrow> pos list" where
  "block G node =
     (let iStart = max 0 (row node - 1);
          iEnd = min (numRows G - 1) (row node + 1);
          jStart = max 0 (col node - 1);
          jEnd = min (numCols G - 1) (col node + 1)
      in concat (map (\<lambda>i. map (\<lambda>j. getNode G i j) [jStart..jEnd]) [iStart..iEnd]))"

text \<open>The body is run for the cells of the block in turn, until the heuristic raises.\<close>

fun visitAll :: "pos option \<Rightarrow> pos \<Rightarrow> pos list \<Rightarrow> AStarTiles \<times> Grid2D \<Rightarrow> error option \<times> AStarTiles \<times> Grid2D" where
  "visitAll target node [] AG = (None, AG)"
| "visitAll target node (temp # rest) AG =
     (case visit target node temp AG of
        (Some e, AG') \<Rightarrow> (Some e, AG')
      | (None, AG') \<Rightarrow> visitAll target node rest AG')"

definition expand :: "pos option \<Rightarrow> pos \<Rightarrow> AStarTiles \<times> Grid2D \<Rightarrow> error option \<times> AStarTiles \<times> Grid2D" where
  "expand target node AG = visitAll target node (block (snd AG) node) AG"

section \<open>The main loop and the reconstruction of the path\<close>

text \<open>
  The \<open>while (node !== this._targetNode)\<close> loop; the target is \<open>None\<close> when
  \<open>this._targetNode\<close> is \<open>null\<close>, which no node equals.  The first argument bounds the
  number of iterations: \<open>None\<close> means that the bound was reached before the loop ended.
  The loop ends with the error that the heuristic raised, or at the target, or with
  the open list empty.  After the non-emptiness test the sorted open list has a first
  element, which \<open>shift\<close> removes; \<open>sort\<close> is the stable sort on the field \<open>f\<close>.
\<close>

fun search :: "nat \<Rightarrow> pos option \<Rightarrow> pos \<Rightarrow> AStarTiles \<times> Grid2D \<Rightarrow> ((error + outcome) \<times> AStarTiles \<times> Grid2D) option" where
  "search 0 target node AG = (if Some node = target then Some (Inr Found, AG) else None)"
| "search (Suc k) target node AG =
     (if Some node = target then Some (Inr Found, AG)
      else
        case expand target node AG of
          (Some e, AG1) \<Rightarrow> Some (Inl e, AG1)
        | (None, A1, G1) \<Rightarrow>
            let A2 = A1\<lparr>closedList := closedList A1 @ [node]\<rparr>
            in if length (openList A2) = 0 then Some (Inr NoPath, A2, G1)
               else
                 let sorted = sort_key (\<lambda>p. f (nodes G1 p)) (openList A2)
                 in search k target (hd sorted) (A2\<lparr>openList := tl sorted\<rparr>, G1))"

text \<open>
  The \<open>while (node !== this._startNode)\<close> loop, which follows \<open>parent\<close> and puts each
  cell in front of the path.  A \<open>null\<close> parent is dereferenced in the next test, which
  raises.  The first argument bounds the number of iterations, as above.
\<close>

fun buildPath :: "nat \<Rightarrow> Grid2D \<Rightarrow> pos \<Rightarrow> pos \<Rightarrow> pos list \<Rightarrow> (error + pos list) option" where
  "buildPath 0 G s node path = (if node = s then Some (Inr path) else None)"
| "buildPath (Suc k) G s node path =
     (if node = s then Some (Inr path)
      else case parent (nodes G node) of
             None \<Rightarrow> Some (Inl TypeError)
           | Some p \<Rightarrow> buildPath k G s p (p # path))"

text \<open>
  Lines 138 to 151: the lists are emptied, the start and target references are
  copied, and \<open>g\<close>, \<open>h\<close> and \<open>f\<close> of the start cell are set.  An unset start is
  dereferenced at line 147; at line 148 the heuristic is called and may raise; the
  state reached at the failure is returned with the error.
\<close>

definition initSearch :: "AStarTiles \<Rightarrow> Grid2D \<Rightarrow> (error + pos) \<times> AStarTiles \<times> Grid2D" where
  "initSearch A G =
     (let A1 = A\<lparr>openList := [], closedList := [],
                 startNodeA := startNode G, targetNodeA := targetNode G\<rparr>
      in case startNodeA A1 of
           None \<Rightarrow> (Inl TypeError, A1, G)
         | Some s \<Rightarrow>
             let G1 = G\<lparr>nodes := (nodes G)(s := (nodes G s)\<lparr>g := 0\<rparr>)\<rparr>
             in case callHeuristic A1 s (targetNodeA A1) of
                  Inl e \<Rightarrow> (Inl e, A1, G1)
                | Inr hv \<Rightarrow>
                    let G2 = G1\<lparr>nodes := (nodes G1)(s := (nodes G1 s)\<lparr>h := hv\<rparr>)\<rparr>;
                        G3 = G2\<lparr>nodes := (nodes G2)(s := (nodes G2 s)\<lparr>f := g (nodes G2 s) + h (nodes G2 s)\<rparr>)\<rparr>
                    in (Inr s, A1, G3))"

text \<open>
  \<open>findPath\<close>: the result is the path or the error, together with the state of the
  path finder and of the grid when it returns.  \<open>None\<close> means that one of the two
  loops did not end within \<open>fuel\<close> iterations.  The reconstruction starts from
  \<open>this._targetNode\<close>, which the main loop has found to be the current node.
\<close>

definition findPath :: "nat \<Rightarrow> AStarTiles \<Rightarrow> Grid2D \<Rightarrow> ((error + pos list) \<times> AStarTiles \<times> Grid2D) option" where
  "findPath fuel A G =
     (case initSearch A G of
        (Inl e, A1, G1) \<Rightarrow> Some (Inl e, A1, G1)
      | (Inr s, A1, G1) \<Rightarrow>
          (case search fuel (targetNodeA A1) s (A1, G1) of
             None \<Rightarrow> None
           | Some (Inl e, A2, G2) \<Rightarrow> Some (Inl e, A2, G2)
           | Some (Inr NoPath, A2, G2) \<Rightarrow> Some (Inr [], A2, G2)
           | Some (Inr Found, A2, G2) \<Rightarrow>
               (case targetNodeA A2 of
                  None \<Rightarrow> Some (Inl TypeError, A2, G2)
                | Some t \<Rightarrow>
                    (case buildPath fuel G2 s t [t] of
                       None \<Rightarrow> None
                     | Some r \<Rightarrow> Some (r, A2, G2)))))"

section \<open>Moves, layout and the invariants of the search\<close>

text \<open>
  A position of the grid, and the moves the neighbour loop accepts: \<open>q\<close> lies in the
  3 by 3 block around \<open>p\<close> inside the grid and passes the guard.  \<open>sameLayout\<close> relates
  two states of a grid that differ at most in the search attributes of their cells.
  \<open>seen\<close> is the set of the cells in a list together with the current node.
\<close>

definition inGrid :: "Grid2D \<Rightarrow> pos \<Rightarrow> bool" where
  "inGrid G p \<longleftrightarrow> 0 \<le> row p \<and> row p < numRows G \<and> 0 \<le> col p \<and> col p < numCols G"

definition move :: "Grid2D \<Rightarrow> pos \<Rightarrow> pos \<Rightarrow> bool" where
  "move G p q \<longleftrightarrow>
     inGrid G q \<and> \<bar>row q - row p\<bar> \<le> 1 \<and> \<bar>col q - col p\<bar> \<le> 1 \<and> \<not> skipped G p q"

definition sameLayout :: "Grid2D \<Rightarrow> Grid2D \<Rightarrow> bool" where
  "sameLayout G G' \<longleftrightarrow>
     numRows G' = numRows G \<and> numCols G' = numCols G \<and>
     startNode G' = startNode G \<and> targetNode G' = targetNode G \<and>
     (\<forall>p. reachable (nodes G' p) = reachable (nodes G p)) \<and>
     (\<forall>p. multiplier (nodes G' p) = multiplier (nodes G p))"

definition seen :: "AStarTiles \<Rightarrow> pos \<Rightarrow> pos set" where
  "seen A node = set (openList A) \<union> set (closedList A) \<union> {node}"

definition linked :: "Grid2D \<Rightarrow> pos \<Rightarrow> pos \<Rightarrow> AStarTiles \<times> Grid2D \<Rightarrow> bool" where
  "linked G0 s node AG \<longleftrightarrow>
     sameLayout G0 (snd AG) \<and>
     (\<forall>n\<in>seen (fst AG) node. (move G0)\<^sup>*\<^sup>* s n) \<and>
     (\<forall>n\<in>seen (fst AG) node. n \<noteq> s \<longrightarrow>
        (\<exists>p\<in>seen (fst AG) node. parent (nodes (snd AG) n) = Some p \<and> move G0 p n))"

definition tidy :: "Grid2D \<Rightarrow> pos \<Rightarrow> AStarTiles \<times> Grid2D \<Rightarrow> bool" where
  "tidy G0 node AG \<longleftrightarrow>
     sameLayout G0 (snd AG) \<and>
     distinct (openList (fst AG) @ closedList (fst AG)) \<and>
     node \<notin> set (openList (fst AG)) \<union> set (closedList (fst AG)) \<and>
     (\<forall>p\<in>seen (fst AG) node. inGrid G0 p)"

definition cells :: "Grid2D \<Rightarrow> pos set" where
  "cells G = {p. inGrid G p}"

definition positive :: "Grid2D \<Rightarrow> bool" where
  "positive G \<longleftrightarrow> (\<forall>p. inGrid G p \<longrightarrow> 0 < multiplier (nodes G p))"

definition costed :: "Grid2D \<Rightarrow> (pos \<Rightarrow> pos \<Rightarrow> real) \<Rightarrow> pos \<Rightarrow> pos \<Rightarrow> pos \<Rightarrow> AStarTiles \<times> Grid2D \<Rightarrow> bool" where
  "costed G0 hf s t node AG \<longleftrightarrow>
     sameLayout G0 (snd AG) \<and> heuristic (fst AG) = hf \<and>
     s \<in> seen (fst AG) node \<and> g (nodes (snd AG) s) = 0 \<and>
     (\<forall>n\<in>seen (fst AG) node.
        0 \<le> g (nodes (snd AG) n) \<and> f (nodes (snd AG) n) = g (nodes (snd AG) n) + hf n t) \<and>
     (\<forall>n\<in>seen (fst AG) node. n \<noteq> s \<longrightarrow>
        (\<exists>p\<in>seen (fst AG) node. parent (nodes (snd AG) n) = Some p \<and> inGrid G0 n \<and>
           g (nodes (snd AG) p) + moveCost p n * multiplier (nodes G0 n) \<le> g (nodes (snd AG) n)))"


text \<open>The loops leave the references and the heuristic of the path finder as they are.\<close>

definition sameFinder :: "AStarTiles \<Rightarrow> AStarTiles \<times> Grid2D \<Rightarrow> bool" where
  "sameFinder A AG \<longleftrightarrow>
     startNodeA (fst AG) = startNodeA A \<and> targetNodeA (fst AG) = targetNodeA A \<and>
     heuristic (fst AG) = heuristic A \<and> heuristicNull (fst AG) = heuristicNull A"

section \<open>Building grids\<close>

text \<open>
  Modelled from the spec: the constructor and the configuration methods of \<open>Grid2D\<close>,
  under the names its callers use (\<open>isReachable\<close>, \<open>isHazard\<close>, \<open>setStartNode\<close>,
  \<open>setTargetNode\<close>).  A fresh cell is reachable, has multiplier 1 and neutral search
  attributes.  A call with a position outside the grid fails with \<open>OutOfBounds\<close>, and
  a multiplier that is not positive fails with \<open>InvalidArgument\<close>; a start or target
  need not be reachable when it is designated.
\<close>

definition newTile :: TileNode where
  "newTile = \<lparr>reachable = True, multiplier = 1, f = 0, g = 0, h = 0, parent = None\<rparr>"

definition newGrid :: "int \<Rightarrow> int \<Rightarrow> Grid2D" where
  "newGrid r c = \<lparr>numRows = r, numCols = c, nodes = (\<lambda>p. newTile),
                  startNode = None, targetNode = None\<rparr>"

definition isReachable :: "int \<Rightarrow> int \<Rightarrow> bool \<Rightarrow> Grid2D \<Rightarrow> error + Grid2D" where
  "isReachable i j b G =
     (if inGrid G (i, j)
      then Inr (G\<lparr>nodes := (nodes G)((i, j) := (nodes G (i, j))\<lparr>reachable := b\<rparr>)\<rparr>)
      else Inl OutOfBounds)"

definition isHazard :: "int \<Rightarrow> int \<Rightarrow> real \<Rightarrow> Grid2D \<Rightarrow> error + Grid2D" where
  "isHazard i j m G =
     (if m \<le> 0 then Inl InvalidArgument
      else if inGrid G (i, j)
      then Inr (G\<lparr>nodes := (nodes G)((i, j) := (nodes G (i, j))\<lparr>multiplier := m\<rparr>)\<rparr>)
      else Inl OutOfBounds)"

definition setStartNode :: "int \<Rightarrow> int \<Rightarrow> Grid2D \<Rightarrow> error + Grid2D" where
  "setStartNode i j G =
     (if inGrid G (i, j) then Inr (G\<lparr>startNode := Some (i, j)\<rparr>) else Inl OutOfBounds)"

definition setTargetNode :: "int \<Rightarrow> int \<Rightarrow> Grid2D \<Rightarrow> error + Grid2D" where
  "setTargetNode i j G =
     (if inGrid G (i, j) then Inr (G\<lparr>targetNode := Some (i, j)\<rparr>) else Inl OutOfBounds)"

text \<open>
  A setup function such as \<open>grid1\<close> is a sequence of such calls on a grid; the first
  call that fails ends it.  \<open>configured r c calls\<close> is the grid of \<open>r\<close> rows and \<open>c\<close>
  columns after the calls, all of which succeed in the examples below.
\<close>

fun configure :: "(Grid2D \<Rightarrow> error + Grid2D) list \<Rightarrow> Grid2D \<Rightarrow> error + Grid2D" where
  "configure [] G = Inr G"
| "configure (c # cs) G = (case c G of Inl e \<Rightarrow> Inl e | Inr G' \<Rightarrow> configure cs G')"

definition configured :: "int \<Rightarrow> int \<Rightarrow> (Grid2D \<Rightarrow> error + Grid2D) list \<Rightarrow> Grid2D" where
  "configured r c calls =
     (case configure calls (newGrid r c) of Inr G \<Rightarrow> G | Inl e \<Rightarrow> newGrid r c)"

text \<open>
  What the constructor establishes and every configuration call keeps: the
  multipliers of the cells of the grid are positive, and a designated start or target
  is a cell of the grid.
\<close>

definition wellFormed :: "Grid2D \<Rightarrow> bool" where
  "wellFormed G \<longleftrightarrow>
     positive G \<and>
     (\<forall>s. startNode G = Some s \<longrightarrow> inGrid G s) \<and>
     (\<forall>t. targetNode G = Some t \<longrightarrow> inGrid G t)"

text \<open>
  The path finder as its constructor leaves it, with a heuristic assigned: \<open>hf\<close> is
  what the heuristic returns for a target and \<open>hn\<close> what it does for \<open>null\<close>.  The
  constructor itself assigns \<open>__diagonal\<close>.
\<close>

definition newAStar :: "(pos \<Rightarrow> pos \<Rightarrow> real) \<Rightarrow> (pos \<Rightarrow> error + real) \<Rightarrow> AStarTiles" where
  "newAStar hf hn = \<lparr>openList = [], closedList = [], startNodeA = None, targetNodeA = None,
                      heuristic = hf, heuristicNull = hn\<rparr>"

section \<open>Example grids\<close>

text \<open>A single cell that is both start and target, marked unreachable, with multiplier 3.\<close>

definition exSame :: Grid2D where
  "exSame = configured 1 1
     [isReachable 0 0 False, isHazard 0 0 3, setStartNode 0 0, setTargetNode 0 0]"

text \<open>One row of two cells; the start cell \<open>(0, 0)\<close> is marked unreachable.\<close>

definition exWallStart :: Grid2D where
  "exWallStart = configured 1 2 [isReachable 0 0 False, setStartNode 0 0, setTargetNode 0 1]"

text \<open>One row of three open cells, from the left end to the right end.\<close>

definition exLine :: Grid2D where
  "exLine = configured 1 3 [setStartNode 0 0, setTargetNode 0 2]"

text \<open>The same row with the middle cell unreachable.\<close>

definition exBlocked :: Grid2D where
  "exBlocked = configured 1 3 [isReachable 0 1 False, setStartNode 0 0, setTargetNode 0 2]"

text \<open>Two rows of two open cells, from the top left to the bottom right corner.\<close>

definition exDiag :: Grid2D where
  "exDiag = configured 2 2 [setStartNode 0 0, setTargetNode 1 1]"

text \<open>
  Three rows of four cells.  The cells \<open>(1, 1)\<close>, \<open>(0, 3)\<close> and \<open>(2, 3)\<close> are
  unreachable, so that no diagonal step is possible, and the cells of the top row have
  multiplier 2.  The start is \<open>(1, 0)\<close> and the target \<open>(1, 3)\<close>, which is entered from
  \<open>(1, 2)\<close> only; \<open>(1, 2)\<close> is reached along the top row, at cost 7, and along the
  bottom row, at cost 4.  The heuristic \<open>hring\<close> makes the search try the top row first
  and the target last.
\<close>

definition hring :: "pos \<Rightarrow> pos \<Rightarrow> real" where
  "hring p t = (if p = (1, 3) then 100 else if row p = 2 then 10 else 0)"

definition hringNull :: "pos \<Rightarrow> error + real" where
  "hringNull p = Inr (if p = (1, 3) then 100 else if row p = 2 then 10 else 0)"

definition exRing :: Grid2D where
  "exRing = configured 3 4
     [isReachable 2 3 False, isReachable 0 3 False, isReachable 1 1 False,
      isHazard 0 2 2, isHazard 0 1 2, isHazard 0 0 2, setStartNode 1 0, setTargetNode 1 3]"

text \<open>The grid \<open>exDiag\<close> with its start cell marked unreachable.\<close>

definition exDiagWall :: Grid2D where
  "exDiagWall = configured 2 2 [isReachable 0 0 False, setStartNode 0 0, setTargetNode 1 1]"

text \<open>One row of two open cells with no start and no target, and with a start only.\<close>

definition exUnset :: Grid2D where
  "exUnset = configured 1 2 []"

definition exNoTarget :: Grid2D where
  "exNoTarget = configured 1 2 [setStartNode 0 0]"

text \<open>The heuristic that is 0 everywhere and does not read its arguments.\<close>

definition hzero :: "pos \<Rightarrow> pos \<Rightarrow> real" where
  "hzero p t = 0"

definition hzeroNull :: "pos \<Rightarrow> error + real" where
  "hzeroNull p = Inr 0"

text \<open>The path finder and the grid as a first search on \<open>exLine\<close> leaves them.\<close>

definition exLineRun :: "AStarTiles \<times> Grid2D" where
  "exLineRun = (case findPath 2 (newAStar hzero hzeroNull) exLine of
                  Some (r, A, G) \<Rightarrow> (A, G)
                | None \<Rightarrow> (newAStar hzero hzeroNull, exLine))"

section \<open>Evaluation\<close>

lemmas grid_defs = configured_def newGrid_def newTile_def isReachable_def isHazard_def
  setStartNode_def setTargetNode_def newAStar_def inGrid_def

lemmas step_defs = expand_def block_def visit_def callHeuristic_def skipped_def getNode_def
  moveCost_def assign_def isInOpenList_def isInClosedList_def Let_def upto.simps

lemma SQRT2_bounds: "1 < SQRT2" "SQRT2 < 2"
proof -
  show "1 < SQRT2" by (simp add: SQRT2_def)
  have "sqrt 2 < 2" by (rule real_less_lsqrt) simp_all
  then show "SQRT2 < 2" by (simp add: SQRT2_def)
qed

lemma exRing_eval:
  "map_option fst (findPath 12 (newAStar hring hringNull) exRing) =
     Some (Inr [(1, 0), (2, 0), (2, 1), (2, 2), (1, 2), (1, 3)]) \<and>
   map_option (\<lambda>r. map (\<lambda>c. g (nodes (snd (snd r)) c)) [(1, 0), (2, 0), (2, 1), (2, 2), (1, 2), (1, 3)])
     (findPath 12 (newAStar hring hringNull) exRing) = Some [0, 1, 2, 3, 4, 8] \<and>
   map_option (\<lambda>r. closedList (fst (snd r))) (findPath 12 (newAStar hring hringNull) exRing) =
     Some [(1, 0), (0, 0), (0, 1), (0, 2), (1, 2), (2, 0), (2, 1), (2, 2)]"
  by (simp add: findPath_def initSearch_def exRing_def hring_def grid_defs step_defs
      eval_nat_numeral)

lemma exNoTarget_eval:
  "map_option fst (findPath 2 (newAStar hzero hzeroNull) exNoTarget) = Some (Inr []) \<and>
   map_option fst (findPath 2 (newAStar diagonal diagonalNull) exNoTarget) = Some (Inl TypeError)"
  by (simp add: findPath_def initSearch_def exNoTarget_def hzero_def hzeroNull_def diagonalNull_def
      grid_defs step_defs eval_nat_numeral)

section \<open>Grids built through the interface\<close>

text \<open>
  The hypotheses on the grid in the theorems below, positive multipliers and a start
  that is a cell of the grid, hold of every grid that the constructor and the
  configuration calls produce.
\<close>

lemma newGrid_wellFormed: "wellFormed (newGrid r c)"
  by (simp add: wellFormed_def positive_def newGrid_def newTile_def)

lemma isReachable_wellFormed:
  assumes "isReachable i j b G = Inr G'" and "wellFormed G"
  shows "wellFormed G'"
  using assms
  by (auto simp: isReachable_def wellFormed_def positive_def inGrid_def split: if_splits)

lemma isHazard_wellFormed:
  assumes "isHazard i j m G = Inr G'" and "wellFormed G"
  shows "wellFormed G'"
  using assms
  by (auto simp: isHazard_def wellFormed_def positive_def inGrid_def split: if_splits)

lemma setStartNode_wellFormed:
  assumes "setStartNode i j G = Inr G'" and "wellFormed G"
  shows "wellFormed G'"
  using assms
  by (auto simp: setStartNode_def wellFormed_def positive_def inGrid_def split: if_splits)

lemma setTargetNode_wellFormed:
  assumes "setTargetNode i j G = Inr G'" and "wellFormed G"
  shows "wellFormed G'"
  using assms
  by (auto simp: setTargetNode_def wellFormed_def positive_def inGrid_def split: if_splits)

section \<open>The steps of the main loop\<close>

lemma sameLayout_refl: "sameLayout G G"
  by (simp add: sameLayout_def)

lemma sameLayout_trans: "sameLayout G G' \<Longrightarrow> sameLayout G' G'' \<Longrightarrow> sameLayout G G''"
  by (simp add: sameLayout_def)

lemma sameLayout_assign: "sameLayout G (assign temp node a b c G)"
  by (simp add: sameLayout_def assign_def)

lemma sameLayout_reachable: "sameLayout G G' \<Longrightarrow> reachable (nodes G' p) = reachable (nodes G p)"
  unfolding sameLayout_def by blast

lemma sameLayout_multiplier: "sameLayout G G' \<Longrightarrow> multiplier (nodes G' p) = multiplier (nodes G p)"
  unfolding sameLayout_def by blast

lemma sameLayout_skipped: "sameLayout G G' \<Longrightarrow> skipped G' p q = skipped G p q"
  by (simp add: skipped_def getNode_def sameLayout_reachable)

lemma sameLayout_block: "sameLayout G G' \<Longrightarrow> block G' p = block G p"
  by (simp add: sameLayout_def block_def getNode_def)

lemma sameLayout_move: "sameLayout G G' \<Longrightarrow> move G' p q = move G p q"
  by (simp add: move_def inGrid_def sameLayout_skipped) (simp add: sameLayout_def)

lemma set_block:
  "q \<in> set (block G p) \<longleftrightarrow>
     max 0 (row p - 1) \<le> row q \<and> row q \<le> min (numRows G - 1) (row p + 1) \<and>
     max 0 (col p - 1) \<le> col q \<and> col q \<le> min (numCols G - 1) (col p + 1)"
  by (cases q) (auto simp: block_def getNode_def Let_def image_iff)

lemma block_move: "q \<in> set (block G p) \<Longrightarrow> \<not> skipped G p q \<Longrightarrow> move G p q"
  by (auto simp: set_block move_def inGrid_def)

text \<open>
  The ways through the body of the neighbour loop: the cell is skipped, or the
  heuristic raises, or the cell is listed and keeps its fields, or is listed and is
  reassigned, or is new and is pushed.
\<close>

lemma visit_cases:
  assumes "visit tgt node temp (A, G) = (r, A', G')"
  obtains
    (skip) "skipped G node temp" "r = None" "A' = A" "G' = G"
  | (raise) e where "\<not> skipped G node temp" "callHeuristic A temp tgt = Inl e"
      "r = Some e" "A' = A" "G' = G"
  | (keep) hv where "\<not> skipped G node temp" "callHeuristic A temp tgt = Inr hv"
      "temp \<in> set (openList A) \<union> set (closedList A)"
      "\<not> g (nodes G node) + moveCost node temp * multiplier (nodes G temp) + hv
           < f (nodes G temp)"
      "r = None" "A' = A" "G' = G"
  | (improve) hv where "\<not> skipped G node temp" "callHeuristic A temp tgt = Inr hv"
      "temp \<in> set (openList A) \<union> set (closedList A)"
      "g (nodes G node) + moveCost node temp * multiplier (nodes G temp) + hv
           < f (nodes G temp)"
      "r = None" "A' = A"
      "G' = assign temp node
              (g (nodes G node) + moveCost node temp * multiplier (nodes G temp) + hv)
              (g (nodes G node) + moveCost node temp * multiplier (nodes G temp)) hv G"
  | (push) hv where "\<not> skipped G node temp" "callHeuristic A temp tgt = Inr hv"
      "temp \<notin> set (openList A) \<union> set (closedList A)"
      "r = None" "A' = A\<lparr>openList := openList A @ [temp]\<rparr>"
      "G' = assign temp node
              (g (nodes G node) + moveCost node temp * multiplier (nodes G temp) + hv)
              (g (nodes G node) + moveCost node temp * multiplier (nodes G temp)) hv G"
proof (cases "skipped G node temp")
  case True
  with assms have "r = None" "A' = A" "G' = G" by (auto simp: visit_def)
  with True show ?thesis by (rule skip)
next
  case ns: False
  let ?g = "g (nodes G node) + moveCost node temp * multiplier (nodes G temp)"
  show ?thesis
  proof (cases "callHeuristic A temp tgt")
    case (Inl e)
    with assms ns have "r = Some e" "A' = A" "G' = G" by (auto simp: visit_def Let_def)
    with ns Inl show ?thesis by (rule raise)
  next
    case (Inr hv)
    show ?thesis
    proof (cases "temp \<in> set (openList A) \<union> set (closedList A)")
      case inl: True
      show ?thesis
      proof (cases "?g + hv < f (nodes G temp)")
        case True
        with assms ns Inr inl have "r = None" "A' = A" "G' = assign temp node (?g + hv) ?g hv G"
          by (auto simp: visit_def Let_def isInOpenList_def isInClosedList_def)
        with ns Inr inl True show ?thesis by (rule improve)
      next
        case False
        with assms ns Inr inl have "r = None" "A' = A" "G' = G"
          by (auto simp: visit_def Let_def isInOpenList_def isInClosedList_def)
        with ns Inr inl False show ?thesis by (rule keep)
      qed
    next
      case False
      with assms ns Inr have "r = None" "A' = A\<lparr>openList := openList A @ [temp]\<rparr>"
          "G' = assign temp node (?g + hv) ?g hv G"
        by (auto simp: visit_def Let_def isInOpenList_def isInClosedList_def)
      with ns Inr False show ?thesis by (rule push)
    qed
  qed
qed

lemma visitAll_rule:
  assumes "P AG"
    and "\<And>temp AG1. temp \<in> set cs \<Longrightarrow> P AG1 \<Longrightarrow> P (snd (visit tgt node temp AG1))"
  shows "P (snd (visitAll tgt node cs AG))"
  using assms
proof (induction cs arbitrary: AG)
  case Nil
  then show ?case by simp
next
  case (Cons c cs)
  obtain r AG1 where v: "visit tgt node c AG = (r, AG1)" by (cases "visit tgt node c AG")
  from Cons.prems(2) [of c AG] Cons.prems(1) v have p1: "P AG1" by simp
  show ?case
  proof (cases r)
    case None
    have "P (snd (visitAll tgt node cs AG1))" using p1 Cons.prems(2) by (intro Cons.IH) auto
    with v None show ?thesis by simp
  next
    case (Some e)
    with v p1 show ?thesis by simp
  qed
qed

lemma expand_rule:
  assumes "P AG"
    and "\<And>temp AG1. temp \<in> set (block (snd AG) node) \<Longrightarrow> P AG1 \<Longrightarrow>
           P (snd (visit tgt node temp AG1))"
  shows "P (snd (expand tgt node AG))"
  unfolding expand_def using assms by (rule visitAll_rule)

lemma search_rule:
  assumes "search fuel tgt node AG = Some (r, AG')"
    and "I node AG"
    and "\<And>node AG A1 G1. I node AG \<Longrightarrow> Some node \<noteq> tgt \<Longrightarrow> expand tgt node AG = (None, A1, G1) \<Longrightarrow>
           openList A1 \<noteq> [] \<Longrightarrow>
           I (hd (sort_key (\<lambda>p. f (nodes G1 p)) (openList A1)))
             (A1\<lparr>closedList := closedList A1 @ [node],
                 openList := tl (sort_key (\<lambda>p. f (nodes G1 p)) (openList A1))\<rparr>, G1)"
    and "\<And>node AG. I node AG \<Longrightarrow> Some node = tgt \<Longrightarrow> Q (Inr Found) AG"
    and "\<And>node AG A1 G1. I node AG \<Longrightarrow> Some node \<noteq> tgt \<Longrightarrow> expand tgt node AG = (None, A1, G1) \<Longrightarrow>
           openList A1 = [] \<Longrightarrow> Q (Inr NoPath) (A1\<lparr>closedList := closedList A1 @ [node]\<rparr>, G1)"
    and "\<And>node AG e AG1. I node AG \<Longrightarrow> Some node \<noteq> tgt \<Longrightarrow> expand tgt node AG = (Some e, AG1) \<Longrightarrow>
           Q (Inl e) AG1"
  shows "Q r AG'"
  using assms(1,2)
proof (induction fuel arbitrary: node AG)
  case 0
  then show ?case using assms(4) by (auto split: if_splits)
next
  case (Suc k)
  show ?case
  proof (cases "Some node = tgt")
    case True
    with Suc.prems show ?thesis using assms(4) by auto
  next
    case False
    obtain x A1 G1 where e: "expand tgt node AG = (x, A1, G1)" by (cases "expand tgt node AG")
    show ?thesis
    proof (cases x)
      case (Some err)
      with Suc.prems False e assms(6) [OF Suc.prems(2) False, of err "(A1, G1)"] show ?thesis
        by simp
    next
      case None
      note e = e [unfolded None]
      show ?thesis
      proof (cases "openList A1 = []")
        case True
        with Suc.prems False e assms(5) [OF Suc.prems(2) False e True] show ?thesis by simp
      next
        case ne: False
        from Suc.prems(1) False e ne have
          "search k tgt (hd (sort_key (\<lambda>p. f (nodes G1 p)) (openList A1)))
               (A1\<lparr>closedList := closedList A1 @ [node],
                   openList := tl (sort_key (\<lambda>p. f (nodes G1 p)) (openList A1))\<rparr>, G1) = Some (r, AG')"
          by (simp add: Let_def)
        from Suc.IH [OF this assms(3) [OF Suc.prems(2) False e ne]] show ?thesis .
      qed
    qed
  qed
qed

lemma assign_parent:
  "parent (nodes (assign temp node a b c G) n) = (if n = temp then Some node else parent (nodes G n))"
  by (simp add: assign_def)

lemma assign_g:
  "g (nodes (assign temp node a b c G) n) = (if n = temp then b else g (nodes G n))"
  by (simp add: assign_def)

lemma assign_f:
  "f (nodes (assign temp node a b c G) n) = (if n = temp then a else f (nodes G n))"
  by (simp add: assign_def)

lemma seen_push: "seen (A\<lparr>openList := openList A @ [temp]\<rparr>) node = insert temp (seen A node)"
  by (auto simp: seen_def)

lemma seen_next:
  assumes "openList A \<noteq> []"
  shows "seen (A\<lparr>closedList := closedList A @ [node], openList := tl (sort_key k (openList A))\<rparr>)
              (hd (sort_key k (openList A))) = seen A node"
proof -
  have ne: "sort_key k (openList A) \<noteq> []" using assms by (metis length_0_conv length_sort)
  have "set (openList A) = set (sort_key k (openList A))" by simp
  also have "\<dots> = insert (hd (sort_key k (openList A))) (set (tl (sort_key k (openList A))))"
    using ne by (metis list.exhaust_sel list.simps(15))
  finally show ?thesis by (auto simp: seen_def)
qed

lemma linked_visit:
  assumes "linked G0 s node AG" and "temp \<in> set (block G0 node)"
  shows "linked G0 s node (snd (visit tgt node temp AG))"
proof -
  obtain A G where AG: "AG = (A, G)" by (cases AG)
  obtain r A' G' where v: "visit tgt node temp (A, G) = (r, A', G')"
    by (cases "visit tgt node temp (A, G)")
  from assms(1) AG have lay: "sameLayout G0 G"
    and reach: "\<And>n. n \<in> seen A node \<Longrightarrow> (move G0)\<^sup>*\<^sup>* s n"
    and par: "\<And>n. n \<in> seen A node \<Longrightarrow> n \<noteq> s \<Longrightarrow>
                \<exists>p\<in>seen A node. parent (nodes G n) = Some p \<and> move G0 p n"
    by (auto simp: linked_def)
  have mv: "move G0 node temp" if "\<not> skipped G node temp"
    using that assms(2) lay by (simp add: block_move sameLayout_skipped)
  have nd: "node \<in> seen A node" by (simp add: seen_def)
  from v have "linked G0 s node (A', G')"
  proof (cases rule: visit_cases)
    case skip
    with assms(1) AG show ?thesis by simp
  next
    case (raise e)
    with assms(1) AG show ?thesis by simp
  next
    case (keep hv)
    with assms(1) AG show ?thesis by simp
  next
    case (improve hv)
    have "sameLayout G0 G'" using lay improve(7) sameLayout_assign sameLayout_trans by blast
    moreover have "\<exists>p\<in>seen A node. parent (nodes G' n) = Some p \<and> move G0 p n"
      if "n \<in> seen A node" "n \<noteq> s" for n
      using par [OF that] mv [OF improve(1)] nd by (cases "n = temp") (auto simp: improve(7) assign_parent)
    ultimately show ?thesis using reach by (simp add: linked_def improve(6))
  next
    case (push hv)
    have "sameLayout G0 G'" using lay push(6) sameLayout_assign sameLayout_trans by blast
    moreover have "\<exists>p\<in>insert temp (seen A node). parent (nodes G' n) = Some p \<and> move G0 p n"
      if "n \<in> insert temp (seen A node)" "n \<noteq> s" for n
    proof (cases "n = temp")
      case True
      then show ?thesis using mv [OF push(1)] nd by (auto simp: push(6) assign_parent)
    next
      case False
      with that par [of n] show ?thesis by (auto simp: push(6) assign_parent)
    qed
    moreover have "(move G0)\<^sup>*\<^sup>* s n" if "n \<in> insert temp (seen A node)" for n
      using that reach [of n] reach [OF nd] mv [OF push(1)] by (auto intro: rtranclp.rtrancl_into_rtrancl)
    ultimately show ?thesis by (simp add: linked_def push(5) seen_push)
  qed
  then show ?thesis by (simp add: AG v)
qed

lemma linked_expand:
  assumes "linked G0 s node AG"
  shows "linked G0 s node (snd (expand tgt node AG))"
proof (rule expand_rule)
  show "linked G0 s node AG" by (rule assms)
next
  fix temp AG'
  assume "temp \<in> set (block (snd AG) node)" and "linked G0 s node AG'"
  moreover have "block (snd AG) node = block G0 node"
    using assms by (simp add: linked_def sameLayout_block)
  ultimately show "linked G0 s node (snd (visit tgt node temp AG'))" by (simp add: linked_visit)
qed

lemma linked_next:
  assumes "linked G0 s node (A1, G1)" and "openList A1 \<noteq> []"
  shows "linked G0 s (hd (sort_key k (openList A1)))
           (A1\<lparr>closedList := closedList A1 @ [node], openList := tl (sort_key k (openList A1))\<rparr>, G1)"
  using assms(1) unfolding linked_def fst_conv snd_conv seen_next [OF assms(2)] .

lemma linked_close:
  assumes "linked G0 s node (A1, G1)"
  shows "linked G0 s node (A1\<lparr>closedList := closedList A1 @ [node]\<rparr>, G1)"
proof -
  have "seen (A1\<lparr>closedList := closedList A1 @ [node]\<rparr>) node = seen A1 node"
    by (auto simp: seen_def)
  with assms show ?thesis by (simp add: linked_def)
qed

lemma search_linked:
  assumes "search fuel tgt node AG = Some (r, AG')" and "linked G0 s node AG"
  shows "\<exists>n. linked G0 s n AG' \<and> (r = Inr Found \<longrightarrow> Some n = tgt)"
  using assms
proof (rule search_rule [where I = "linked G0 s"])
  fix node AG A1 G1
  assume "linked G0 s node AG" "expand tgt node AG = (None, A1, G1)" "openList A1 \<noteq> []"
  then show "linked G0 s (hd (sort_key (\<lambda>p. f (nodes G1 p)) (openList A1)))
           (A1\<lparr>closedList := closedList A1 @ [node],
               openList := tl (sort_key (\<lambda>p. f (nodes G1 p)) (openList A1))\<rparr>, G1)"
    using linked_expand [of G0 s node AG tgt] linked_next by simp
next
  fix node AG
  assume "linked G0 s node AG" "Some node = tgt"
  then show "\<exists>n. linked G0 s n AG \<and> (Inr Found = Inr Found \<longrightarrow> Some n = tgt)" by blast
next
  fix node AG A1 G1
  assume "linked G0 s node AG" "expand tgt node AG = (None, A1, G1)"
  then have "linked G0 s node (A1\<lparr>closedList := closedList A1 @ [node]\<rparr>, G1)"
    using linked_expand [of G0 s node AG tgt] linked_close by simp
  then show "\<exists>n. linked G0 s n (A1\<lparr>closedList := closedList A1 @ [node]\<rparr>, G1) \<and>
                 (Inr NoPath = Inr Found \<longrightarrow> Some n = tgt)"
    by blast
next
  fix node AG e AG1
  assume "linked G0 s node AG" "expand tgt node AG = (Some e, AG1)"
  then have "linked G0 s node AG1" using linked_expand [of G0 s node AG tgt] by simp
  then show "\<exists>n. linked G0 s n AG1 \<and> (Inl e = Inr Found \<longrightarrow> Some n = tgt)" by blast
qed

lemma linked_listed_reachable:
  assumes "linked G0 s n (A, G)" and "c \<in> set (openList A) \<union> set (closedList A)" and "c \<noteq> s"
  shows "reachable (nodes G0 c)"
proof -
  from assms(2) have "c \<in> seen A n" by (auto simp: seen_def)
  with assms(1,3) have "\<exists>p. move G0 p c" unfolding linked_def fst_conv snd_conv by blast
  then show ?thesis unfolding move_def skipped_def by blast
qed

lemma sameFinder_visit: "sameFinder A0 AG \<Longrightarrow> sameFinder A0 (snd (visit tgt node temp AG))"
proof -
  assume a: "sameFinder A0 AG"
  obtain A G where AG: "AG = (A, G)" by (cases AG)
  obtain r A' G' where v: "visit tgt node temp (A, G) = (r, A', G')"
    by (cases "visit tgt node temp (A, G)")
  from v have "sameFinder A0 (A', G')"
    using a AG by (cases rule: visit_cases) (simp_all add: sameFinder_def)
  then show ?thesis by (simp add: AG v)
qed

lemma sameFinder_expand: "sameFinder A0 AG \<Longrightarrow> sameFinder A0 (snd (expand tgt node AG))"
  by (rule expand_rule) (simp_all add: sameFinder_visit)

lemma search_sameFinder:
  assumes "search fuel tgt node AG = Some (r, AG')" and "sameFinder A0 AG"
  shows "sameFinder A0 AG'"
  using assms(1)
proof (rule search_rule [where I = "\<lambda>node. sameFinder A0" and Q = "\<lambda>r. sameFinder A0"])
  show "sameFinder A0 AG" by (rule assms(2))
next
  fix node AG A1 G1
  assume "sameFinder A0 AG" "expand tgt node AG = (None, A1, G1)"
  then have "sameFinder A0 (A1, G1)" using sameFinder_expand [of A0 AG tgt node] by simp
  then show "sameFinder A0 (A1\<lparr>closedList := closedList A1 @ [node],
                 openList := tl (sort_key (\<lambda>p. f (nodes G1 p)) (openList A1))\<rparr>, G1)"
    and "sameFinder A0 (A1\<lparr>closedList := closedList A1 @ [node]\<rparr>, G1)"
    by (simp_all add: sameFinder_def)
next
  fix node AG e AG1
  assume "sameFinder A0 AG" "expand tgt node AG = (Some e, AG1)"
  then show "sameFinder A0 AG1" using sameFinder_expand [of A0 AG tgt node] by simp
qed

text \<open>With a target the heuristic returns a number, and the loop does not fail.\<close>

lemma visit_target_no_error: "fst (visit (Some t) node temp AG) = None"
  by (cases AG) (simp add: visit_def callHeuristic_def Let_def)

lemma visitAll_target_no_error: "fst (visitAll (Some t) node cs AG) = None"
proof (induction cs arbitrary: AG)
  case Nil
  then show ?case by simp
next
  case (Cons c cs)
  obtain r AG1 where v: "visit (Some t) node c AG = (r, AG1)" by (cases "visit (Some t) node c AG")
  with visit_target_no_error [of t node c AG] have "r = None" by simp
  with v Cons.IH [of AG1] show ?case by simp
qed

lemma expand_target_no_error: "expand (Some t) node AG \<noteq> (Some e, AG1)"
  using visitAll_target_no_error [of t node "block (snd AG) node" AG] by (auto simp: expand_def)

lemma search_target_no_error:
  assumes "search fuel (Some t) node AG = Some (r, AG')"
  shows "\<exists>out. r = Inr out"
  using assms
proof (rule search_rule [where I = "\<lambda>node AG. True"])
  fix node AG e AG1
  assume "expand (Some t) node AG = (Some e, AG1)"
  then show "\<exists>out. Inl e = Inr out" using expand_target_no_error by blast
qed simp_all

lemma search_Found_target:
  assumes "search fuel tgt node AG = Some (Inr Found, AG')"
  shows "tgt \<noteq> None"
proof -
  have "r = Inr Found \<longrightarrow> tgt \<noteq> None" if "search fuel tgt node AG = Some (r, AG')" for r
    using that by (rule search_rule [where I = "\<lambda>node AG. True"]) auto
  with assms show ?thesis by simp
qed

lemma cells_product: "cells G = {0..<numRows G} \<times> {0..<numCols G}"
  by (auto simp: cells_def inGrid_def)

lemma finite_cells: "finite (cells G)"
  by (simp add: cells_product)

lemma card_cells: "card (cells G) = nat (numRows G) * nat (numCols G)"
  by (simp add: cells_product card_cartesian_product)

lemma block_inGrid: "q \<in> set (block G p) \<Longrightarrow> inGrid G q"
  by (auto simp: set_block inGrid_def)

lemma tidy_visit:
  assumes "tidy G0 node AG" and "temp \<in> set (block G0 node)"
  shows "tidy G0 node (snd (visit tgt node temp AG)) \<and>
         closedList (fst (snd (visit tgt node temp AG))) = closedList (fst AG)"
proof -
  obtain A G where AG: "AG = (A, G)" by (cases AG)
  obtain r A' G' where v: "visit tgt node temp (A, G) = (r, A', G')"
    by (cases "visit tgt node temp (A, G)")
  from assms(1) AG have lay: "sameLayout G0 G"
    and dist: "distinct (openList A @ closedList A)"
    and nd: "node \<notin> set (openList A) \<union> set (closedList A)"
    and ing: "\<And>p. p \<in> seen A node \<Longrightarrow> inGrid G0 p"
    by (auto simp: tidy_def)
  from v have "tidy G0 node (A', G') \<and> closedList A' = closedList A"
  proof (cases rule: visit_cases)
    case skip
    with assms(1) AG show ?thesis by simp
  next
    case (raise e)
    with assms(1) AG show ?thesis by simp
  next
    case (keep hv)
    with assms(1) AG show ?thesis by simp
  next
    case (improve hv)
    have "sameLayout G0 G'" using lay improve(7) sameLayout_assign sameLayout_trans by blast
    with dist nd ing show ?thesis by (simp add: tidy_def improve(6))
  next
    case (push hv)
    have "sameLayout G0 G'" using lay push(6) sameLayout_assign sameLayout_trans by blast
    moreover have "temp \<noteq> node" using push(1) by (auto simp: skipped_def)
    moreover have "inGrid G0 temp" using assms(2) by (rule block_inGrid)
    ultimately show ?thesis using dist nd ing push(3)
      by (auto simp: tidy_def push(5) seen_push)
  qed
  then show ?thesis by (simp add: AG v)
qed

lemma tidy_expand:
  assumes "tidy G0 node AG"
  shows "tidy G0 node (snd (expand tgt node AG)) \<and>
         closedList (fst (snd (expand tgt node AG))) = closedList (fst AG)"
proof (rule expand_rule)
  show "tidy G0 node AG \<and> closedList (fst AG) = closedList (fst AG)" using assms by simp
next
  fix temp AG'
  assume "temp \<in> set (block (snd AG) node)"
    and "tidy G0 node AG' \<and> closedList (fst AG') = closedList (fst AG)"
  moreover have "block (snd AG) node = block G0 node"
    using assms by (simp add: tidy_def sameLayout_block)
  ultimately show "tidy G0 node (snd (visit tgt node temp AG')) \<and>
         closedList (fst (snd (visit tgt node temp AG'))) = closedList (fst AG)"
    using tidy_visit [of G0 node AG' temp tgt] by simp
qed

lemma tidy_next:
  assumes "tidy G0 node (A1, G1)" and "openList A1 \<noteq> []"
  shows "tidy G0 (hd (sort_key k (openList A1)))
           (A1\<lparr>closedList := closedList A1 @ [node], openList := tl (sort_key k (openList A1))\<rparr>, G1)"
proof -
  let ?xs = "sort_key k (openList A1)"
  have ne: "?xs \<noteq> []" using assms(2) by (metis length_0_conv length_sort)
  then obtain x xs where xs: "?xs = x # xs" by (cases ?xs) auto
  have "distinct ?xs" using assms(1) by (simp add: tidy_def)
  with xs have d: "x \<notin> set xs" "distinct xs" by auto
  have "set (openList A1) = set ?xs" by simp
  with xs have so: "set (openList A1) = insert x (set xs)" by simp
  from assms(1) have "distinct (openList A1 @ closedList A1)"
    "node \<notin> set (openList A1) \<union> set (closedList A1)"
    "\<forall>p\<in>seen A1 node. inGrid G0 p" "sameLayout G0 G1"
    by (auto simp: tidy_def)
  with d so show ?thesis unfolding xs by (auto simp: tidy_def seen_def)
qed

lemma tidy_closed_bound:
  assumes "tidy G0 node (A, G)"
  shows "length (closedList A) < card (cells G0)"
proof -
  from assms have d: "distinct (closedList A)" and sub: "set (closedList A) \<subseteq> cells G0 - {node}"
    and nd: "node \<in> cells G0"
    by (auto simp: tidy_def seen_def cells_def)
  have "length (closedList A) = card (set (closedList A))" using d by (simp add: distinct_card)
  also have "\<dots> \<le> card (cells G0 - {node})" using sub finite_cells by (simp add: card_mono)
  also have "\<dots> < card (cells G0)" by (rule card_Diff1_less [OF finite_cells nd])
  finally show ?thesis .
qed

lemma search_terminates:
  assumes "tidy G0 node AG" and "card (cells G0) \<le> fuel + length (closedList (fst AG))"
  shows "\<exists>r. search fuel tgt node AG = Some r"
  using assms
proof (induction fuel arbitrary: node AG)
  case 0
  then show ?case using tidy_closed_bound [of G0 node "fst AG" "snd AG"] by simp
next
  case (Suc k)
  show ?case
  proof (cases "Some node = tgt")
    case True
    then show ?thesis by simp
  next
    case False
    obtain x A1 G1 where e: "expand tgt node AG = (x, A1, G1)" by (cases "expand tgt node AG")
    from tidy_expand [OF Suc.prems(1), of tgt] e have t1: "tidy G0 node (A1, G1)"
      and c1: "closedList A1 = closedList (fst AG)" by simp_all
    show ?thesis
    proof (cases x)
      case (Some err)
      with False e show ?thesis by simp
    next
      case None
      show ?thesis
      proof (cases "openList A1 = []")
        case True
        with False e None show ?thesis by simp
      next
        case ne: False
        let ?k = "\<lambda>p. f (nodes G1 p)"
        let ?AG = "(A1\<lparr>closedList := closedList A1 @ [node], openList := tl (sort_key ?k (openList A1))\<rparr>, G1)"
        have "tidy G0 (hd (sort_key ?k (openList A1))) ?AG" using t1 ne by (rule tidy_next)
        moreover have "card (cells G0) \<le> k + length (closedList (fst ?AG))"
          using Suc.prems(2) c1 by simp
        ultimately have "\<exists>r. search k tgt (hd (sort_key ?k (openList A1))) ?AG = Some r"
          by (rule Suc.IH)
        with False e None ne show ?thesis by (simp add: Let_def)
      qed
    qed
  qed
qed

lemma search_tidy:
  assumes "search fuel tgt node AG = Some (r, AG')" and "tidy G0 node AG"
  shows "distinct (closedList (fst AG') @ openList (fst AG')) \<and>
         length (closedList (fst AG')) \<le> card (cells G0) \<and>
         (r = Inr Found \<longrightarrow> (\<exists>t. tgt = Some t \<and> tidy G0 t AG'))"
  using assms
proof (rule search_rule [where I = "tidy G0"])
  fix node AG A1 G1
  assume a: "tidy G0 node AG" "expand tgt node AG = (None, A1, G1)" "openList A1 \<noteq> []"
  then have "tidy G0 node (A1, G1)" using tidy_expand [of G0 node AG tgt] by simp
  then show "tidy G0 (hd (sort_key (\<lambda>p. f (nodes G1 p)) (openList A1)))
           (A1\<lparr>closedList := closedList A1 @ [node],
               openList := tl (sort_key (\<lambda>p. f (nodes G1 p)) (openList A1))\<rparr>, G1)"
    using a(3) by (rule tidy_next)
next
  fix node AG
  assume t: "tidy G0 node AG" "Some node = tgt"
  then have "\<exists>t. tgt = Some t \<and> tidy G0 t AG" by blast
  moreover have "distinct (closedList (fst AG) @ openList (fst AG)) \<and>
         length (closedList (fst AG)) \<le> card (cells G0)"
    using t(1) tidy_closed_bound [of G0 node "fst AG" "snd AG"] by (auto simp: tidy_def)
  ultimately show "distinct (closedList (fst AG) @ openList (fst AG)) \<and>
         length (closedList (fst AG)) \<le> card (cells G0) \<and>
         (Inr Found = Inr Found \<longrightarrow> (\<exists>t. tgt = Some t \<and> tidy G0 t AG))"
    by blast
next
  fix node AG A1 G1
  assume "tidy G0 node AG" "expand tgt node AG = (None, A1, G1)" "openList A1 = []"
  then have t1: "tidy G0 node (A1, G1)" using tidy_expand [of G0 node AG tgt] by simp
  then show "distinct (closedList (fst (A1\<lparr>closedList := closedList A1 @ [node]\<rparr>, G1)) @
                openList (fst (A1\<lparr>closedList := closedList A1 @ [node]\<rparr>, G1))) \<and>
         length (closedList (fst (A1\<lparr>closedList := closedList A1 @ [node]\<rparr>, G1))) \<le> card (cells G0) \<and>
         (Inr NoPath = Inr Found \<longrightarrow>
            (\<exists>t. tgt = Some t \<and> tidy G0 t (A1\<lparr>closedList := closedList A1 @ [node]\<rparr>, G1)))"
    using tidy_closed_bound [OF t1] by (auto simp: tidy_def)
next
  fix node AG e AG1
  assume "tidy G0 node AG" "expand tgt node AG = (Some e, AG1)"
  then have t1: "tidy G0 node AG1" using tidy_expand [of G0 node AG tgt] by simp
  then show "distinct (closedList (fst AG1) @ openList (fst AG1)) \<and>
         length (closedList (fst AG1)) \<le> card (cells G0) \<and>
         (Inl e = Inr Found \<longrightarrow> (\<exists>t. tgt = Some t \<and> tidy G0 t AG1))"
    using tidy_closed_bound [of G0 node "fst AG1" "snd AG1"] by (auto simp: tidy_def)
qed

lemma positiveD: "positive G \<Longrightarrow> inGrid G p \<Longrightarrow> 0 < multiplier (nodes G p)"
  unfolding positive_def by blast

lemma moveCost_pos: "0 < moveCost p q"
  using SQRT2_bounds(1) by (simp add: moveCost_def)

lemma costed_visit:
  assumes "costed G0 hf s t node AG" and "temp \<in> set (block G0 node)" and "positive G0"
  shows "costed G0 hf s t node (snd (visit (Some t) node temp AG))"
proof -
  obtain A G where AG: "AG = (A, G)" by (cases AG)
  obtain r A' G' where v: "visit (Some t) node temp (A, G) = (r, A', G')"
    by (cases "visit (Some t) node temp (A, G)")
  from assms(1) AG have lay: "sameLayout G0 G" and hf: "heuristic A = hf"
    and s: "s \<in> seen A node" and gs: "g (nodes G s) = 0"
    and fg: "\<And>n. n \<in> seen A node \<Longrightarrow> 0 \<le> g (nodes G n) \<and> f (nodes G n) = g (nodes G n) + hf n t"
    and par: "\<And>n. n \<in> seen A node \<Longrightarrow> n \<noteq> s \<Longrightarrow>
                \<exists>p\<in>seen A node. parent (nodes G n) = Some p \<and> inGrid G0 n \<and>
                  g (nodes G p) + moveCost p n * multiplier (nodes G0 n) \<le> g (nodes G n)"
    by (auto simp: costed_def)
  have nd: "node \<in> seen A node" by (simp add: seen_def)
  have ig: "inGrid G0 temp" using assms(2) by (rule block_inGrid)
  then have mp: "0 < multiplier (nodes G0 temp)" using assms(3) by (rule positiveD [rotated])
  have mG: "multiplier (nodes G temp) = multiplier (nodes G0 temp)"
    using lay by (rule sameLayout_multiplier)
  let ?g = "g (nodes G node) + moveCost node temp * multiplier (nodes G temp)"
  let ?h = "hf temp t"
  have gpos: "0 < ?g"
    using fg [OF nd] moveCost_pos [of node temp] mp mG by (simp add: add_nonneg_pos)
  have hv: "hv = ?h" if "callHeuristic A temp (Some t) = Inr hv" for hv
    using that hf by (simp add: callHeuristic_def)
  from v have "costed G0 hf s t node (A', G')"
  proof (cases rule: visit_cases)
    case skip
    with assms(1) AG show ?thesis by simp
  next
    case (raise e)
    with assms(1) AG show ?thesis by simp
  next
    case (keep hv)
    with assms(1) AG show ?thesis by simp
  next
    case (improve hv')
    have G': "G' = assign temp node (?g + ?h) ?g ?h G" using improve(7) hv [OF improve(2)] by simp
    have ts: "temp \<in> seen A node" using improve(3) by (auto simp: seen_def)
    have less: "?g < g (nodes G temp)" using improve(4) hv [OF improve(2)] fg [OF ts] by simp
    have tns: "temp \<noteq> s" using less gpos gs by auto
    have tnn: "temp \<noteq> node" using improve(1) by (auto simp: skipped_def)
    have "sameLayout G0 G'" using lay G' sameLayout_assign sameLayout_trans by blast
    moreover have "g (nodes G' s) = 0" using gs tns by (simp add: G' assign_g)
    moreover have "0 \<le> g (nodes G' n) \<and> f (nodes G' n) = g (nodes G' n) + hf n t"
      if "n \<in> seen A node" for n
      using fg [OF that] gpos by (simp add: G' assign_g assign_f)
    moreover have "\<exists>p\<in>seen A node. parent (nodes G' n) = Some p \<and> inGrid G0 n \<and>
          g (nodes G' p) + moveCost p n * multiplier (nodes G0 n) \<le> g (nodes G' n)"
      if "n \<in> seen A node" "n \<noteq> s" for n
    proof (cases "n = temp")
      case True
      then show ?thesis using nd tnn ig mG by (auto simp: G' assign_g assign_parent)
    next
      case False
      from par [OF that] obtain p where p: "p \<in> seen A node" "parent (nodes G n) = Some p"
        "inGrid G0 n" "g (nodes G p) + moveCost p n * multiplier (nodes G0 n) \<le> g (nodes G n)"
        by blast
      have "g (nodes G' p) \<le> g (nodes G p)" using less by (simp add: G' assign_g)
      with p False show ?thesis by (auto simp: G' assign_g assign_parent)
    qed
    ultimately show ?thesis using hf s by (simp add: costed_def improve(6))
  next
    case (push hv')
    have G': "G' = assign temp node (?g + ?h) ?g ?h G" using push(6) hv [OF push(2)] by simp
    have tns: "temp \<notin> seen A node" using push(1,3) by (auto simp: seen_def skipped_def)
    have tnn: "temp \<noteq> node" using push(1) by (auto simp: skipped_def)
    have "sameLayout G0 G'" using lay G' sameLayout_assign sameLayout_trans by blast
    moreover have "g (nodes G' s) = 0" using gs tns s by (auto simp: G' assign_g)
    moreover have "0 \<le> g (nodes G' n) \<and> f (nodes G' n) = g (nodes G' n) + hf n t"
      if "n \<in> insert temp (seen A node)" for n
      using that fg [of n] gpos by (auto simp: G' assign_g assign_f)
    moreover have "\<exists>p\<in>insert temp (seen A node). parent (nodes G' n) = Some p \<and> inGrid G0 n \<and>
          g (nodes G' p) + moveCost p n * multiplier (nodes G0 n) \<le> g (nodes G' n)"
      if "n \<in> insert temp (seen A node)" "n \<noteq> s" for n
    proof (cases "n = temp")
      case True
      then show ?thesis using nd tnn ig mG by (auto simp: G' assign_g assign_parent)
    next
      case False
      with that have ns: "n \<in> seen A node" by simp
      from par [OF ns that(2)] obtain p where p: "p \<in> seen A node" "parent (nodes G n) = Some p"
        "inGrid G0 n" "g (nodes G p) + moveCost p n * multiplier (nodes G0 n) \<le> g (nodes G n)"
        by blast
      from p(1) tns have "p \<noteq> temp" by auto
      with p False show ?thesis by (auto simp: G' assign_g assign_parent)
    qed
    ultimately show ?thesis using hf s by (simp add: costed_def push(5) seen_push)
  qed
  then show ?thesis by (simp add: AG v)
qed

lemma costed_expand:
  assumes "costed G0 hf s t node AG" and "positive G0"
  shows "costed G0 hf s t node (snd (expand (Some t) node AG))"
proof (rule expand_rule)
  show "costed G0 hf s t node AG" by (rule assms)
next
  fix temp AG'
  assume "temp \<in> set (block (snd AG) node)" and "costed G0 hf s t node AG'"
  moreover have "block (snd AG) node = block G0 node"
    using assms by (simp add: costed_def sameLayout_block)
  ultimately show "costed G0 hf s t node (snd (visit (Some t) node temp AG'))"
    using assms(2) by (simp add: costed_visit)
qed

lemma costed_next:
  assumes "costed G0 hf s t node (A1, G1)" and "openList A1 \<noteq> []"
  shows "costed G0 hf s t (hd (sort_key k (openList A1)))
           (A1\<lparr>closedList := closedList A1 @ [node], openList := tl (sort_key k (openList A1))\<rparr>, G1)"
proof -
  have "heuristic (A1\<lparr>closedList := closedList A1 @ [node],
                     openList := tl (sort_key k (openList A1))\<rparr>) = heuristic A1"
    by simp
  with assms(1) show ?thesis
    unfolding costed_def fst_conv snd_conv seen_next [OF assms(2)] by simp
qed

lemma search_costed:
  assumes "search fuel (Some t) node AG = Some (Inr Found, AG')" and "costed G0 hf s t node AG"
    and "positive G0"
  shows "costed G0 hf s t t AG'"
proof -
  have "r = Inr Found \<longrightarrow> costed G0 hf s t t AG'"
    if "search fuel (Some t) node AG = Some (r, AG')" for r
    using that assms(2)
  proof (rule search_rule [where I = "costed G0 hf s t"])
    fix node AG A1 G1
    assume a: "costed G0 hf s t node AG" "expand (Some t) node AG = (None, A1, G1)" "openList A1 \<noteq> []"
    then have "costed G0 hf s t node (A1, G1)"
      using costed_expand [of G0 hf s t node AG] assms(3) by simp
    then show "costed G0 hf s t (hd (sort_key (\<lambda>p. f (nodes G1 p)) (openList A1)))
             (A1\<lparr>closedList := closedList A1 @ [node],
                 openList := tl (sort_key (\<lambda>p. f (nodes G1 p)) (openList A1))\<rparr>, G1)"
      using a(3) by (rule costed_next)
  qed simp_all
  with assms(1) show ?thesis by simp
qed

section \<open>The initialisation and the result of \<open>findPath\<close>\<close>

lemma callHeuristic_fields:
  assumes "heuristic A' = heuristic A" and "heuristicNull A' = heuristicNull A"
  shows "callHeuristic A' n tgt = callHeuristic A n tgt"
  using assms by (cases tgt) (simp_all add: callHeuristic_def)

lemma initSearch_Inr:
  assumes "initSearch A G = (Inr s, A1, G1)"
  shows "startNode G = Some s" and "targetNodeA A1 = targetNode G"
    and "openList A1 = []" and "closedList A1 = []" and "sameFinder A1 (A1, G1)"
    and "heuristic A1 = heuristic A"
    and "sameLayout G G1"
    and "\<And>p. p \<noteq> s \<Longrightarrow> nodes G1 p = nodes G p"
    and "g (nodes G1 s) = 0"
    and "\<And>t. targetNode G = Some t \<Longrightarrow> f (nodes G1 s) = heuristic A s t"
proof -
  let ?A1 = "A\<lparr>openList := [], closedList := [], startNodeA := startNode G,
               targetNodeA := targetNode G\<rparr>"
  have ch: "callHeuristic (A\<lparr>openList := a, closedList := b, startNodeA := c, targetNodeA := d\<rparr>) n tgt =
            callHeuristic A n tgt" for a b c d n tgt
    by (rule callHeuristic_fields) simp_all
  obtain s' where s': "startNode G = Some s'"
    using assms by (cases "startNode G") (simp_all add: initSearch_def Let_def)
  obtain hv where hv: "callHeuristic A s' (targetNode G) = Inr hv"
    using assms s' by (cases "callHeuristic A s' (targetNode G)") (simp_all add: initSearch_def Let_def ch)
  from assms s' hv have eq: "s = s'" "A1 = ?A1"
    "G1 = G\<lparr>nodes := (nodes G)(s' := (nodes G s')\<lparr>g := 0, h := hv, f := 0 + hv\<rparr>)\<rparr>"
    by (auto simp: initSearch_def Let_def ch)
  have st: "startNode G = Some s" using s' eq(1) by simp
  note A1 = eq(2)
  have G1: "G1 = G\<lparr>nodes := (nodes G)(s := (nodes G s)\<lparr>g := 0, h := hv, f := 0 + hv\<rparr>)\<rparr>"
    using eq(1,3) by simp
  have hv: "callHeuristic A s (targetNode G) = Inr hv" using hv eq(1) by simp
  show "startNode G = Some s" by (rule st)
  show "targetNodeA A1 = targetNode G" "openList A1 = []" "closedList A1 = []"
    "heuristic A1 = heuristic A" by (simp_all add: A1)
  show "sameFinder A1 (A1, G1)" by (simp add: sameFinder_def)
  show "sameLayout G G1" by (simp add: G1 sameLayout_def)
  show "\<And>p. p \<noteq> s \<Longrightarrow> nodes G1 p = nodes G p" by (simp add: G1)
  show "g (nodes G1 s) = 0" by (simp add: G1)
  show "\<And>t. targetNode G = Some t \<Longrightarrow> f (nodes G1 s) = heuristic A s t"
    using hv by (simp add: G1 callHeuristic_def)
qed

lemma initSearch_set:
  assumes "startNode G = Some s" and "targetNode G = Some t"
  shows "\<exists>A1 G1. initSearch A G = (Inr s, A1, G1) \<and> targetNodeA A1 = Some t"
  using assms by (simp add: initSearch_def callHeuristic_def Let_def)

lemma findPath_cases:
  assumes "findPath fuel A G = Some (r, A', G')"
  obtains
    (init_error) e where "r = Inl e" "initSearch A G = (Inl e, A', G')"
  | (loop_error) e s A1 G1 where "r = Inl e" "initSearch A G = (Inr s, A1, G1)"
      "search fuel (targetNode G) s (A1, G1) = Some (Inl e, A', G')"
  | (nopath) s A1 G1 where "initSearch A G = (Inr s, A1, G1)"
      "search fuel (targetNode G) s (A1, G1) = Some (Inr NoPath, A', G')" "r = Inr []"
  | (found) s t A1 G1 where "initSearch A G = (Inr s, A1, G1)" "targetNode G = Some t"
      "search fuel (Some t) s (A1, G1) = Some (Inr Found, A', G')"
      "buildPath fuel G' s t [t] = Some r"
proof -
  obtain x A1 G1 where i: "initSearch A G = (x, A1, G1)" by (cases "initSearch A G")
  show ?thesis
  proof (cases x)
    case (Inl e)
    with assms i have "r = Inl e" "A' = A1" "G' = G1" by (auto simp: findPath_def)
    with i Inl show ?thesis by (auto intro: init_error)
  next
    case (Inr s)
    note i = i [unfolded Inr]
    have tg: "targetNodeA A1 = targetNode G" using i by (rule initSearch_Inr(2))
    from assms i tg obtain y where run: "search fuel (targetNode G) s (A1, G1) = Some (y, A', G')"
      by (auto simp: findPath_def split: option.splits sum.splits outcome.splits)
    show ?thesis
    proof (cases y)
      case (Inl e)
      with assms i tg run have "r = Inl e" by (auto simp: findPath_def)
      with i run Inl show ?thesis by (auto intro: loop_error)
    next
      case out: (Inr out)
      show ?thesis
      proof (cases out)
        case NoPath
        with assms i tg run out have "r = Inr []" by (auto simp: findPath_def)
        with i run out NoPath show ?thesis by (auto intro: nopath)
      next
        case Found
        with run out have f: "search fuel (targetNode G) s (A1, G1) = Some (Inr Found, A', G')"
          by simp
        from search_Found_target [OF f] obtain t where t: "targetNode G = Some t" by auto
        have "sameFinder A1 (A', G')"
          using f initSearch_Inr(5) [OF i] by (rule search_sameFinder)
        then have "targetNodeA A' = Some t" using tg t by (simp add: sameFinder_def)
        with assms i tg f have "buildPath fuel G' s t [t] = Some r"
          by (auto simp: findPath_def split: option.splits)
        with i t f show ?thesis by (auto intro: found)
      qed
    qed
  qed
qed

lemma findPath_NoPath:
  assumes "initSearch A G = (Inr s, A1, G1)"
    and "search fuel (targetNode G) s (A1, G1) = Some (Inr NoPath, A', G')"
  shows "findPath fuel A G = Some (Inr [], A', G')"
  using assms initSearch_Inr(2) [OF assms(1)] by (simp add: findPath_def)

lemma findPath_Found:
  assumes "initSearch A G = (Inr s, A1, G1)" and "targetNode G = Some t"
    and "search fuel (Some t) s (A1, G1) = Some (Inr Found, A', G')"
    and "buildPath fuel G' s t [t] = Some r"
  shows "findPath fuel A G = Some (r, A', G')"
proof -
  have tg: "targetNodeA A1 = Some t" using initSearch_Inr(2) [OF assms(1)] assms(2) by simp
  have "sameFinder A1 (A', G')"
    using assms(3) initSearch_Inr(5) [OF assms(1)] by (rule search_sameFinder)
  then have "targetNodeA A' = Some t" using tg by (simp add: sameFinder_def)
  with assms tg show ?thesis by (simp add: findPath_def)
qed

lemma linked_init:
  assumes "initSearch A G = (Inr s, A1, G1)"
  shows "linked G s s (A1, G1)"
  using initSearch_Inr(3,4,7) [OF assms] by (simp add: linked_def seen_def)

lemma tidy_init:
  assumes "initSearch A G = (Inr s, A1, G1)" and "inGrid G s"
  shows "tidy G s (A1, G1)"
  using initSearch_Inr(3,4,7) [OF assms(1)] assms(2) by (simp add: tidy_def seen_def)

lemma costed_init:
  assumes "initSearch A G = (Inr s, A1, G1)" and "targetNode G = Some t"
  shows "costed G (heuristic A) s t s (A1, G1)"
  using initSearch_Inr(3,4,6,7,9) [OF assms(1)] initSearch_Inr(10) [OF assms]
  by (simp add: costed_def seen_def)

lemma buildPath_rule:
  assumes "buildPath k G s node acc = Some r"
    and "\<And>n. P n \<Longrightarrow> n \<noteq> s \<Longrightarrow> \<exists>p. parent (nodes G n) = Some p \<and> P p \<and> R p n"
    and "successively R acc" and "acc \<noteq> []" and "hd acc = node" and "\<forall>x\<in>set acc. P x"
  shows "\<exists>path. r = Inr path \<and> successively R path \<and> path \<noteq> [] \<and> hd path = s \<and>
           last path = last acc \<and> (\<forall>x\<in>set path. P x)"
  using assms(1,3-)
proof (induction k arbitrary: node acc)
  case 0
  then show ?case by (auto split: if_splits)
next
  case (Suc k)
  show ?case
  proof (cases "node = s")
    case True
    with Suc.prems show ?thesis by auto
  next
    case False
    from Suc.prems have "P node" by (cases acc) auto
    from assms(2) [OF this False] obtain p where
      p: "parent (nodes G node) = Some p" "P p" "R p node" by blast
    from Suc.prems(1) False p have run: "buildPath k G s p (p # acc) = Some r" by simp
    have "successively R (p # acc)" using Suc.prems p(3) by (cases acc) auto
    from Suc.IH [OF run this] Suc.prems p(2) show ?thesis by auto
  qed
qed

lemma successively_tl_target:
  assumes "successively R xs" and "y \<in> set (tl xs)"
  shows "\<exists>p. R p y"
  using assms by (induction R xs rule: successively.induct) auto

lemma successively_nth:
  assumes "successively R xs" and "Suc i < length xs"
  shows "R (xs ! i) (xs ! Suc i)"
  using assms
proof (induction R xs arbitrary: i rule: successively.induct)
  case (3 P x y xs)
  then show ?case by (cases i) auto
qed simp_all

lemma findPath_moves:
  assumes "findPath fuel A G = Some (Inr path, A', G')" and "path \<noteq> []"
  shows "startNode G = Some (hd path) \<and> targetNode G = Some (last path) \<and>
         successively (move G) path"
  using assms(1)
proof (cases rule: findPath_cases)
  case (init_error e)
  then show ?thesis by simp
next
  case (loop_error e s A1 G1)
  then show ?thesis by simp
next
  case (nopath s A1 G1)
  with assms(2) show ?thesis by simp
next
  case (found s t A1 G1)
  from search_linked [OF found(3) linked_init [OF found(1)]] have l: "linked G s t (A', G')"
    by auto
  have "\<exists>p. parent (nodes G' n) = Some p \<and> p \<in> seen A' t \<and> move G p n"
    if "n \<in> seen A' t" "n \<noteq> s" for n
    using l that by (auto simp: linked_def)
  from buildPath_rule [where P = "\<lambda>n. n \<in> seen A' t" and R = "move G", OF found(4) this]
  show ?thesis using initSearch_Inr(1) [OF found(1)] found(2) by (auto simp: seen_def)
qed

section \<open>The reconstruction loop\<close>

lemma finite_seen: "finite (seen A node)"
  by (simp add: seen_def)

lemma costed_parent:
  assumes "costed G0 hf s t cur (A, G)" and "positive G0" and "n \<in> seen A cur" and "n \<noteq> s"
  shows "\<exists>p\<in>seen A cur. parent (nodes G n) = Some p \<and>
           g (nodes G p) + moveCost p n * multiplier (nodes G0 n) \<le> g (nodes G n) \<and>
           g (nodes G p) < g (nodes G n)"
proof -
  from assms(1,3,4) obtain p where p: "p \<in> seen A cur" "parent (nodes G n) = Some p" "inGrid G0 n"
    "g (nodes G p) + moveCost p n * multiplier (nodes G0 n) \<le> g (nodes G n)"
    unfolding costed_def fst_conv snd_conv by blast
  have "0 < moveCost p n * multiplier (nodes G0 n)"
    using moveCost_pos positiveD [OF assms(2) p(3)] by simp
  with p show ?thesis by force
qed

lemma buildPath_terminates:
  assumes "costed G0 hf s t cur (A, G)" and "positive G0" and "node \<in> seen A cur"
    and "card {n \<in> seen A cur. g (nodes G n) < g (nodes G node)} \<le> k"
  shows "\<exists>r. buildPath k G s node acc = Some r"
  using assms(3,4)
proof (induction k arbitrary: node acc)
  case 0
  show ?case
  proof (cases "node = s")
    case True
    then show ?thesis by simp
  next
    case False
    from costed_parent [OF assms(1,2) "0.prems"(1) False] obtain p where
      "p \<in> seen A cur" "g (nodes G p) < g (nodes G node)" by blast
    then have "p \<in> {n \<in> seen A cur. g (nodes G n) < g (nodes G node)}" by simp
    moreover have "finite {n \<in> seen A cur. g (nodes G n) < g (nodes G node)}"
      using finite_seen by simp
    ultimately have "0 < card {n \<in> seen A cur. g (nodes G n) < g (nodes G node)}"
      using card_gt_0_iff by blast
    with "0.prems"(2) show ?thesis by simp
  qed
next
  case (Suc k)
  show ?case
  proof (cases "node = s")
    case True
    then show ?thesis by simp
  next
    case False
    from costed_parent [OF assms(1,2) Suc.prems(1) False] obtain p where
      p: "p \<in> seen A cur" "parent (nodes G node) = Some p" "g (nodes G p) < g (nodes G node)"
      by blast
    let ?S = "\<lambda>x. {n \<in> seen A cur. g (nodes G n) < g (nodes G x)}"
    have "?S p \<subset> ?S node" using p(1,3) by auto
    moreover have "finite (?S node)" using finite_seen by simp
    ultimately have "card (?S p) < card (?S node)" by (rule psubset_card_mono [rotated])
    with Suc.prems(2) have "card (?S p) \<le> k" by simp
    from Suc.IH [OF p(1) this] obtain r where "buildPath k G s p (p # acc) = Some r" by blast
    with False p(2) show ?thesis by simp
  qed
qed

lemma tidy_seen_bound:
  assumes "tidy G0 node (A, G)"
  shows "card {n \<in> seen A node. P n \<and> n \<noteq> node} < card (cells G0)"
proof -
  from assms have nd: "node \<in> cells G0" and sub: "seen A node \<subseteq> cells G0"
    by (auto simp: tidy_def seen_def cells_def)
  then have "{n \<in> seen A node. P n \<and> n \<noteq> node} \<subseteq> cells G0 - {node}" by auto
  then have "card {n \<in> seen A node. P n \<and> n \<noteq> node} \<le> card (cells G0 - {node})"
    using finite_cells by (simp add: card_mono)
  also have "\<dots> < card (cells G0)" by (rule card_Diff1_less [OF finite_cells nd])
  finally show ?thesis .
qed

lemma successively_less_distinct:
  fixes gv :: "'a \<Rightarrow> real"
  assumes "successively (\<lambda>a b. gv a < gv b) xs"
  shows "distinct xs"
proof -
  have "successively (<) (map gv xs)" using assms by (simp add: successively_map)
  then have "sorted_wrt (<) (map gv xs)" by (simp add: successively_conv_sorted_wrt)
  then have "distinct (map gv xs)" by (simp add: strict_sorted_iff)
  then show ?thesis by (simp add: distinct_map)
qed


lemma no_move_no_reach:
  assumes "(move G)\<^sup>*\<^sup>* s t" and "\<And>q. \<not> move G s q"
  shows "t = s"
  using assms by (auto elim: converse_rtranclpE)

lemma main_loop_terminates:
  assumes "initSearch A G = (Inr s, A1, G1)" and "inGrid G s"
    and "nat (numRows G) * nat (numCols G) \<le> fuel"
  shows "\<exists>r A' G'. search fuel tgt s (A1, G1) = Some (r, A', G')"
proof -
  have "tidy G s (A1, G1)" using assms(1,2) by (rule tidy_init)
  moreover have "card (cells G) \<le> fuel + length (closedList (fst (A1, G1)))"
    using assms(3) by (simp add: card_cells)
  ultimately show ?thesis using search_terminates by (metis prod_cases3)
qed

lemma reconstruction:
  assumes "initSearch A G = (Inr s, A1, G1)" and "targetNode G = Some t"
    and "inGrid G s" and "positive G"
    and "search fuel (Some t) s (A1, G1) = Some (Inr Found, A', G')"
    and "nat (numRows G) * nat (numCols G) \<le> k"
  shows "\<exists>path. buildPath k G' s t [t] = Some (Inr path) \<and> hd path = s \<and> last path = t \<and>
           distinct path \<and> successively (\<lambda>a b. parent (nodes G' b) = Some a) path"
proof -
  have td: "tidy G t (A', G')"
    using search_tidy [OF assms(5) tidy_init [OF assms(1,3)]] by auto
  have c: "costed G (heuristic A) s t t (A', G')"
    using assms(5) costed_init [OF assms(1,2)] assms(4) by (rule search_costed)
  have "{n \<in> seen A' t. g (nodes G' n) < g (nodes G' t)} =
        {n \<in> seen A' t. g (nodes G' n) < g (nodes G' t) \<and> n \<noteq> t}"
    by auto
  then have "card {n \<in> seen A' t. g (nodes G' n) < g (nodes G' t)} < card (cells G)"
    using tidy_seen_bound [OF td, of "\<lambda>n. g (nodes G' n) < g (nodes G' t)"] by simp
  then have "card {n \<in> seen A' t. g (nodes G' n) < g (nodes G' t)} \<le> k"
    using assms(6) by (simp add: card_cells)
  from buildPath_terminates [OF c assms(4) _ this, of "[t]"] obtain r where
    r: "buildPath k G' s t [t] = Some r" by (auto simp: seen_def)
  let ?R = "\<lambda>a b. parent (nodes G' b) = Some a \<and> g (nodes G' a) < g (nodes G' b)"
  have "\<exists>p. parent (nodes G' n) = Some p \<and> p \<in> seen A' t \<and> ?R p n"
    if "n \<in> seen A' t" "n \<noteq> s" for n
    using costed_parent [OF c assms(4) that] by blast
  from buildPath_rule [where P = "\<lambda>n. n \<in> seen A' t" and R = ?R, OF r this]
  obtain path where p: "r = Inr path" "successively ?R path" "hd path = s" "last path = t"
    by (auto simp: seen_def)
  have "successively (\<lambda>a b. g (nodes G' a) < g (nodes G' b)) path"
    using p(2) by (rule successively_mono) simp
  then have "distinct path" by (rule successively_less_distinct)
  moreover have "successively (\<lambda>a b. parent (nodes G' b) = Some a) path"
    using p(2) by (rule successively_mono) simp
  ultimately show ?thesis using r p by simp
qed

section \<open>The example grids, evaluated\<close>

lemma exLineRun_eval:
  "closedList (fst exLineRun) = [(0, 0), (0, 1)] \<and> openList (fst exLineRun) = [] \<and>
   nodes (snd exLineRun) (0, 1) = newTile\<lparr>f := 1, g := 1, parent := Some (0, 0)\<rparr> \<and>
   startNode (snd exLineRun) = Some (0, 0) \<and> targetNode (snd exLineRun) = Some (0, 2)"
  by (simp add: exLineRun_def findPath_def initSearch_def exLine_def hzero_def grid_defs
      step_defs numeral_2_eq_2)

lemma exDiag_eval:
  "map_option fst (findPath 1 (newAStar diagonal diagonalNull) exDiag) = Some (Inr [(0, 0), (1, 1)])"
  using SQRT2_bounds
  by (simp add: findPath_def initSearch_def exDiag_def diagonal_def grid_defs step_defs)

lemma exDiag_search:
  "\<exists>A' G'. search 4 (Some (1, 1)) (0, 0) (snd (initSearch (newAStar diagonal diagonalNull) exDiag)) =
             Some (Inr Found, A', G')"
  using SQRT2_bounds
  by (simp add: initSearch_def exDiag_def diagonal_def grid_defs step_defs eval_nat_numeral)


lemma exRing_positive: "positive exRing"
  by (simp add: positive_def exRing_def grid_defs)

lemma exDiagWall_eval:
  "map_option fst (findPath 1 (newAStar diagonal diagonalNull) exDiagWall) = Some (Inr [(0, 0), (1, 1)])"
  using SQRT2_bounds
  by (simp add: findPath_def initSearch_def exDiagWall_def diagonal_def grid_defs step_defs)

lemma exWallStart_eval:
  "map_option fst (findPath 1 (newAStar diagonal diagonalNull) exWallStart) = Some (Inr []) \<and>
   map_option (\<lambda>r. closedList (fst (snd r))) (findPath 1 (newAStar diagonal diagonalNull) exWallStart) =
     Some [(0, 0)]"
  using SQRT2_bounds
  by (simp add: findPath_def initSearch_def exWallStart_def diagonal_def grid_defs step_defs)

lemma exBlocked_eval:
  "map_option fst (findPath 3 (newAStar diagonal diagonalNull) exBlocked) = Some (Inr [])"
  using SQRT2_bounds
  by (simp add: findPath_def initSearch_def exBlocked_def diagonal_def grid_defs step_defs
     eval_nat_numeral)

section \<open>Start and target on the same cell\<close>

text \<open>
  C10.  When the designated start and target are the same cell, \<open>findPath\<close> returns the
  path made of that cell alone, whatever its reachability and multiplier, and within
  any bound on the iterations: the main loop is not entered, so both lists are empty
  on return and the grid is as the initialisation left it.
\<close>

theorem findPath_start_is_target:
  assumes "startNode G = Some s" and "targetNode G = Some s"
  shows "findPath fuel A G =
           Some (Inr [s],
                 A\<lparr>openList := [], closedList := [], startNodeA := Some s, targetNodeA := Some s\<rparr>,
                 snd (snd (initSearch A G)))"
  using assms by (cases fuel) (simp_all add: findPath_def initSearch_def callHeuristic_def Let_def)

theorem findPath_start_is_target_witness:
  "\<not> reachable (nodes exSame (0, 0)) \<and> multiplier (nodes exSame (0, 0)) = 3 \<and>
   map_option fst (findPath 0 (newAStar diagonal diagonalNull) exSame) = Some (Inr [(0, 0)]) \<and>
   map_option (\<lambda>r. closedList (fst (snd r))) (findPath 0 (newAStar diagonal diagonalNull) exSame) =
     Some []"
  using findPath_start_is_target [of exSame "(0, 0)" 0 "newAStar diagonal diagonalNull"]
  by (simp add: exSame_def grid_defs)

section \<open>A neighbour that is already in a list\<close>

text \<open>
  C5.  When the neighbour \<open>temp\<close> of the current node passes the guard and is already in
  the open or in the closed list, its \<open>parent\<close>, \<open>g\<close>, \<open>h\<close> and \<open>f\<close> are reassigned when
  the tentative \<open>f'\<close> through the current node is strictly less than the stored \<open>f\<close>,
  and otherwise nothing at all is changed; the lists are the same in both cases.  This
  is so for a target that is set, where the heuristic returns a number, and also for
  an unset target when the heuristic returns a number; when it raises, nothing is
  changed.
\<close>

theorem visit_listed:
  assumes "\<not> skipped G node temp"
    and "isInOpenList A temp \<or> isInClosedList A temp"
  shows "visit (Some t) node temp (A, G) =
           (let g' = g (nodes G node) + moveCost node temp * multiplier (nodes G temp);
                h' = heuristic A temp t;
                f' = g' + h'
            in if f' < f (nodes G temp)
               then (None, A, G\<lparr>nodes := (nodes G)(temp :=
                            (nodes G temp)\<lparr>f := f', g := g', h := h', parent := Some node\<rparr>)\<rparr>)
               else (None, A, G)) \<and>
         visit target node temp (A, G) =
           (case callHeuristic A temp target of
              Inl e \<Rightarrow> (Some e, A, G)
            | Inr h' \<Rightarrow>
                let g' = g (nodes G node) + moveCost node temp * multiplier (nodes G temp);
                    f' = g' + h'
                in if f' < f (nodes G temp)
                   then (None, A, G\<lparr>nodes := (nodes G)(temp :=
                            (nodes G temp)\<lparr>f := f', g := g', h := h', parent := Some node\<rparr>)\<rparr>)
                   else (None, A, G))"
  using assms by (auto simp: visit_def assign_def callHeuristic_def Let_def split: sum.splits)

theorem visit_listed_witness:
  "visit (Some (0, 2)) (0, 0) (0, 1)
     ((newAStar hzero hzeroNull)\<lparr>openList := [(0, 1)]\<rparr>,
      exLine\<lparr>nodes := (nodes exLine)((0, 1) := newTile\<lparr>f := 5, g := 5\<rparr>)\<rparr>) =
   (None, (newAStar hzero hzeroNull)\<lparr>openList := [(0, 1)]\<rparr>,
    exLine\<lparr>nodes := (nodes exLine)((0, 1) := newTile\<lparr>f := 1, g := 1, parent := Some (0, 0)\<rparr>)\<rparr>)"
  using visit_listed [of "exLine\<lparr>nodes := (nodes exLine)((0, 1) := newTile\<lparr>f := 5, g := 5\<rparr>)\<rparr>"
      "(0, 0)" "(0, 1)" "(newAStar hzero hzeroNull)\<lparr>openList := [(0, 1)]\<rparr>" "(0, 2)" "Some (0, 2)"]
  by (simp add: exLine_def grid_defs hzero_def skipped_def getNode_def moveCost_def
      isInOpenList_def isInClosedList_def Let_def)

section \<open>What the initialisation resets\<close>

text \<open>
  C6, as stated, fails: a second search on the grid \<open>exLine\<close> starts with the cell
  \<open>(0, 1)\<close> still holding \<open>g = 1\<close> and the predecessor \<open>(0, 0)\<close> of the first search;
  only the two lists are emptied.
\<close>

theorem initSearch_keeps_stale_fields:
  "closedList (fst exLineRun) = [(0, 0), (0, 1)] \<and>
   closedList (fst (snd (initSearch (fst exLineRun) (snd exLineRun)))) = [] \<and>
   g (nodes (snd (snd (initSearch (fst exLineRun) (snd exLineRun)))) (0, 1)) = 1 \<and>
   parent (nodes (snd (snd (initSearch (fst exLineRun) (snd exLineRun)))) (0, 1)) = Some (0, 0)"
  using exLineRun_eval by (simp add: initSearch_def callHeuristic_def Let_def newTile_def)

text \<open>
  C6, amended.  The initialisation empties the open and the closed list and, when
  start and target are set, sets \<open>g\<close>, \<open>h\<close> and \<open>f\<close> of the start cell to 0, to the
  heuristic value and to their sum.  It leaves every other cell with all its fields,
  and the start cell with its predecessor and its static attributes.
\<close>

theorem initSearch_effect:
  assumes "initSearch A G = (r, A', G')"
  shows "openList A' = [] \<and> closedList A' = [] \<and>
         (\<forall>p. startNode G \<noteq> Some p \<longrightarrow> nodes G' p = nodes G p) \<and>
         (\<forall>s t. startNode G = Some s \<and> targetNode G = Some t \<longrightarrow>
            r = Inr s \<and>
            nodes G' s = (nodes G s)\<lparr>f := 0 + heuristic A s t, g := 0, h := heuristic A s t\<rparr>)"
proof (cases "startNode G")
  case None
  with assms show ?thesis by (auto simp: initSearch_def Let_def)
next
  case (Some s)
  show ?thesis
  proof (cases "callHeuristic A s (targetNode G)")
    case (Inl e)
    with assms Some show ?thesis
      by (cases "targetNode G") (auto simp: initSearch_def callHeuristic_def Let_def)
  next
    case (Inr hv)
    with assms Some show ?thesis
      by (cases "targetNode G") (auto simp: initSearch_def callHeuristic_def Let_def)
  qed
qed

theorem initSearch_effect_witness:
  "openList (fst (snd (initSearch (fst exLineRun) (snd exLineRun)))) = [] \<and>
   nodes (snd (snd (initSearch (fst exLineRun) (snd exLineRun)))) (0, 2) = nodes (snd exLineRun) (0, 2) \<and>
   g (nodes (snd (snd (initSearch (fst exLineRun) (snd exLineRun)))) (0, 0)) = 0"
  using initSearch_effect [of "fst exLineRun" "snd exLineRun"
      "fst (initSearch (fst exLineRun) (snd exLineRun))"
      "fst (snd (initSearch (fst exLineRun) (snd exLineRun)))"
      "snd (snd (initSearch (fst exLineRun) (snd exLineRun)))"] exLineRun_eval
  by simp

section \<open>Diagonal steps do not cut corners\<close>

text \<open>
  C3.  In every path that \<open>findPath\<close> returns, a step between consecutive cells that
  differ in both row and column has both flanking cells reachable: the cell in the
  first cell's row and the second cell's column, and the cell in the second cell's
  row and the first cell's column.
\<close>

theorem findPath_no_corner_cutting:
  assumes "findPath fuel A G = Some (Inr path, A', G')"
    and "Suc i < length path"
    and "row (path ! i) \<noteq> row (path ! Suc i)" and "col (path ! i) \<noteq> col (path ! Suc i)"
  shows "reachable (nodes G (row (path ! i), col (path ! Suc i))) \<and>
         reachable (nodes G (row (path ! Suc i), col (path ! i)))"
proof -
  from assms(2) have "path \<noteq> []" by auto
  from findPath_moves [OF assms(1) this] have "successively (move G) path" by simp
  from successively_nth [OF this assms(2)] show ?thesis
    by (simp add: move_def skipped_def getNode_def)
qed

theorem findPath_no_corner_cutting_witness:
  "map_option fst (findPath 1 (newAStar diagonal diagonalNull) exDiag) = Some (Inr [(0, 0), (1, 1)]) \<and>
   reachable (nodes exDiag (0, 1)) \<and> reachable (nodes exDiag (1, 0))"
proof -
  from exDiag_eval obtain A' G' where
    run: "findPath 1 (newAStar diagonal diagonalNull) exDiag = Some (Inr [(0, 0), (1, 1)], A', G')"
    by auto
  from findPath_no_corner_cutting [OF run, of 0] exDiag_eval show ?thesis by simp
qed

section \<open>An unreachable target\<close>

text \<open>
  C1.  When the target cannot be reached from the start by the moves the neighbour
  loop accepts, \<open>findPath\<close> returns the empty path as a normal result: the main loop
  ends, within one iteration for each cell of the grid, with the open list empty.
\<close>

theorem findPath_unreachable_target:
  assumes "startNode G = Some s" and "targetNode G = Some t" and "inGrid G s"
    and "\<not> (move G)\<^sup>*\<^sup>* s t"
    and "nat (numRows G) * nat (numCols G) \<le> fuel"
  shows "\<exists>A' G'. findPath fuel A G = Some (Inr [], A', G')"
proof -
  from initSearch_set [OF assms(1,2)] obtain A1 G1 where
    i: "initSearch A G = (Inr s, A1, G1)" by blast
  from main_loop_terminates [OF i assms(3,5)] obtain r A' G' where
    run: "search fuel (Some t) s (A1, G1) = Some (r, A', G')" by blast
  from search_target_no_error [OF run] obtain out where out: "r = Inr out" by blast
  have "out \<noteq> Found"
  proof
    assume "out = Found"
    with search_linked [OF run linked_init [OF i]] out have "linked G s t (A', G')" by auto
    then have "(move G)\<^sup>*\<^sup>* s t" by (simp add: linked_def seen_def)
    with assms(4) show False by simp
  qed
  then have "out = NoPath" by (cases out) simp_all
  with run out findPath_NoPath [OF i, of fuel A' G'] assms(2) show ?thesis by auto
qed

theorem findPath_unreachable_target_witness:
  "\<not> (move exBlocked)\<^sup>*\<^sup>* (0, 0) (0, 2) \<and>
   map_option fst (findPath 3 (newAStar diagonal diagonalNull) exBlocked) = Some (Inr [])"
proof -
  have "\<not> move exBlocked (0, 0) q" for q
    by (cases q) (auto simp: move_def skipped_def getNode_def exBlocked_def grid_defs)
  then have nr: "\<not> (move exBlocked)\<^sup>*\<^sup>* (0, 0) (0, 2)"
    using no_move_no_reach [of exBlocked "(0, 0)" "(0, 2)"] by auto
  have "startNode exBlocked = Some (0, 0)" "targetNode exBlocked = Some (0, 2)"
    "inGrid exBlocked (0, 0)" "nat (numRows exBlocked) * nat (numCols exBlocked) \<le> 3"
    by (simp_all add: exBlocked_def grid_defs)
  from findPath_unreachable_target [OF this(1,2,3) nr this(4), of "newAStar diagonal diagonalNull"] nr
  show ?thesis by auto
qed

section \<open>Unreachable cells\<close>

text \<open>
  C2, as stated, fails: the guard is applied to the neighbours of the current node,
  not to the cell the search starts from.  On the grid \<open>exDiagWall\<close> the start cell
  \<open>(0, 0)\<close> is unreachable and is the first cell of the returned path.
\<close>

theorem findPath_unreachable_start_on_path:
  "\<not> reachable (nodes exDiagWall (0, 0)) \<and>
   map_option fst (findPath 1 (newAStar diagonal diagonalNull) exDiagWall) =
     Some (Inr [(0, 0), (1, 1)])"
  using exDiagWall_eval by (simp add: exDiagWall_def grid_defs)

text \<open>
  C2, amended.  A cell with \<open>reachable == false\<close> other than the start cell is never
  entered in the neighbour loop (the body leaves the lists and the grid as they
  are), is in neither list when \<open>findPath\<close> returns, and is not on the returned path.
\<close>

theorem findPath_avoids_unreachable:
  assumes "findPath fuel A G = Some (Inr path, A', G')"
    and "\<not> reachable (nodes G c)" and "startNode G \<noteq> Some c"
  shows "c \<notin> set path \<and> c \<notin> set (openList A') \<and> c \<notin> set (closedList A') \<and>
         (\<forall>target node A2 G2. sameLayout G G2 \<longrightarrow> visit target node c (A2, G2) = (None, A2, G2))"
proof -
  have "c \<notin> set path"
  proof
    assume c: "c \<in> set path"
    then have ne: "path \<noteq> []" by auto
    from findPath_moves [OF assms(1) ne] have hd: "startNode G = Some (hd path)"
      and mv: "successively (move G) path" by simp_all
    from c ne hd assms(3) have "c \<in> set (tl path)" by (cases path) auto
    from successively_tl_target [OF mv this] obtain p where "move G p c" by blast
    with assms(2) show False by (simp add: move_def skipped_def)
  qed
  moreover have "c \<notin> set (openList A') \<union> set (closedList A')"
  proof
    assume c: "c \<in> set (openList A') \<union> set (closedList A')"
    from assms(1) have "\<exists>s n. startNode G = Some s \<and> linked G s n (A', G')"
    proof (cases rule: findPath_cases)
      case (init_error e)
      then show ?thesis by simp
    next
      case (loop_error e s A1 G1)
      then show ?thesis by simp
    next
      case (nopath s A1 G1)
      from search_linked [OF nopath(2) linked_init [OF nopath(1)]] initSearch_Inr(1) [OF nopath(1)]
      show ?thesis by blast
    next
      case (found s t A1 G1)
      from search_linked [OF found(3) linked_init [OF found(1)]] initSearch_Inr(1) [OF found(1)]
      show ?thesis by blast
    qed
    then obtain s n where "startNode G = Some s" "linked G s n (A', G')" by blast
    with linked_listed_reachable [OF this(2) c] assms(2,3) show False by auto
  qed
  moreover have "visit target node c (A2, G2) = (None, A2, G2)" if "sameLayout G G2"
    for target node A2 G2
    using assms(2) sameLayout_reachable [OF that, of c] by (simp add: visit_def skipped_def)
  ultimately show ?thesis by blast
qed

theorem findPath_avoids_unreachable_witness:
  "\<not> reachable (nodes exRing (1, 1)) \<and>
   ((1, 1) :: pos) \<notin> set [(1, 0), (2, 0), (2, 1), (2, 2), (1, 2), (1, 3)] \<and>
   visit (Some (1, 3)) (1, 0) (1, 1) (newAStar hring hringNull, exRing) =
     (None, newAStar hring hringNull, exRing)"
proof -
  from exRing_eval obtain A' G' where
    run: "findPath 12 (newAStar hring hringNull) exRing =
            Some (Inr [(1, 0), (2, 0), (2, 1), (2, 2), (1, 2), (1, 3)], A', G')"
    by auto
  have "\<not> reachable (nodes exRing (1, 1))" "startNode exRing \<noteq> Some (1, 1)"
    by (simp_all add: exRing_def grid_defs)
  from findPath_avoids_unreachable [OF run this] this(1) sameLayout_refl [of exRing]
  show ?thesis by blast
qed

section \<open>Accumulated costs along the path\<close>




section \<open>Unset or unreachable start and target\<close>

text \<open>
  C7, as stated, fails: no validation is made.  On the grid \<open>exWallStart\<close>, whose
  start cell is unreachable, \<open>findPath\<close> does not fail: it runs the search, puts the
  start on the closed list and returns the empty path.
\<close>

theorem findPath_unreachable_start_no_error:
  "\<not> reachable (nodes exWallStart (0, 0)) \<and>
   map_option fst (findPath 1 (newAStar diagonal diagonalNull) exWallStart) = Some (Inr []) \<and>
   map_option (\<lambda>r. closedList (fst (snd r))) (findPath 1 (newAStar diagonal diagonalNull) exWallStart) =
     Some [(0, 0)]"
  using exWallStart_eval by (simp add: exWallStart_def grid_defs)

text \<open>
  C7, amended.  \<open>findPath\<close> makes no test of its own on the start and the target.
  With the start unset it fails with the error of dereferencing \<open>null\<close>, after the
  lists were emptied and the references copied, the grid being unchanged.  With the
  start set, it fails at the initialisation when the call of the heuristic on the
  start and the target raises, as that of \<open>__diagonal\<close> does for an unset target, and
  then \<open>g\<close> of the start cell has also been set to 0.  With start and target both set
  it never fails, whatever their reachability.
\<close>

theorem findPath_failure:
  "(startNode G = None \<longrightarrow>
      findPath fuel A G =
        Some (Inl TypeError,
              A\<lparr>openList := [], closedList := [], startNodeA := None, targetNodeA := targetNode G\<rparr>,
              G)) \<and>
   (startNode G = Some s \<and> callHeuristic A s (targetNode G) = Inl e \<longrightarrow>
      findPath fuel A G =
        Some (Inl e,
              A\<lparr>openList := [], closedList := [], startNodeA := Some s,
                 targetNodeA := targetNode G\<rparr>,
              G\<lparr>nodes := (nodes G)(s := (nodes G s)\<lparr>g := 0\<rparr>)\<rparr>)) \<and>
   (startNode G = Some s \<and> targetNode G = Some t \<longrightarrow>
      (\<forall>e' A' G'. findPath fuel A G \<noteq> Some (Inl e', A', G')))"
proof (intro conjI impI allI)
  assume "startNode G = None"
  then show "findPath fuel A G =
        Some (Inl TypeError,
              A\<lparr>openList := [], closedList := [], startNodeA := None, targetNodeA := targetNode G\<rparr>,
              G)"
    by (simp add: findPath_def initSearch_def Let_def)
next
  assume a: "startNode G = Some s \<and> callHeuristic A s (targetNode G) = Inl e"
  have "callHeuristic (A\<lparr>openList := [], closedList := [], startNodeA := Some s,
                         targetNodeA := targetNode G\<rparr>) s (targetNode G) =
        callHeuristic A s (targetNode G)"
    by (rule callHeuristic_fields) simp_all
  with a show "findPath fuel A G =
        Some (Inl e,
              A\<lparr>openList := [], closedList := [], startNodeA := Some s,
                 targetNodeA := targetNode G\<rparr>,
              G\<lparr>nodes := (nodes G)(s := (nodes G s)\<lparr>g := 0\<rparr>)\<rparr>)"
    by (simp add: findPath_def initSearch_def Let_def)
next
  fix e' A' G'
  assume st: "startNode G = Some s \<and> targetNode G = Some t"
  show "findPath fuel A G \<noteq> Some (Inl e', A', G')"
  proof
    assume "findPath fuel A G = Some (Inl e', A', G')"
    then show False
    proof (cases rule: findPath_cases)
      case (init_error e)
      with initSearch_set [of G s t A] st show ?thesis by auto
    next
      case (loop_error e s' A1 G1)
      with st search_target_no_error [of fuel t s' "(A1, G1)" "Inl e" "(A', G')"] show ?thesis
        by simp
    next
      case (nopath s' A1 G1)
      then show ?thesis by simp
    next
      case (found s' t' A1 G1)
      from search_linked [OF found(3) linked_init [OF found(1)]] have l: "linked G s' t' (A', G')"
        by auto
      have "\<exists>p. parent (nodes G' n) = Some p \<and> p \<in> seen A' t' \<and> move G p n"
        if "n \<in> seen A' t'" "n \<noteq> s'" for n
        using l that by (auto simp: linked_def)
      from buildPath_rule [where P = "\<lambda>n. n \<in> seen A' t'" and R = "move G", OF found(4) this]
      show ?thesis by (auto simp: seen_def)
    qed
  qed
qed

theorem findPath_failure_witness:
  "map_option fst (findPath 1 (newAStar diagonal diagonalNull) exUnset) = Some (Inl TypeError) \<and>
   map_option fst (findPath 1 (newAStar diagonal diagonalNull) exNoTarget) = Some (Inl TypeError) \<and>
   map_option (\<lambda>r. g (nodes (snd (snd r)) (0, 0)))
     (findPath 1 (newAStar diagonal diagonalNull) exNoTarget) = Some 0 \<and>
   map_option fst (findPath 1 (newAStar diagonal diagonalNull) exWallStart) = Some (Inr [])"
  using findPath_failure [where G = exUnset and fuel = 1 and A = "newAStar diagonal diagonalNull"]
    findPath_failure [where G = exNoTarget and fuel = 1
      and A = "newAStar diagonal diagonalNull" and s = "(0, 0)" and e = TypeError]
    findPath_failure [where G = exWallStart and fuel = 1 and A = "newAStar diagonal diagonalNull"
      and s = "(0, 0)" and t = "(0, 1)"]
    exWallStart_eval
  by (simp add: exUnset_def exNoTarget_def exWallStart_def grid_defs callHeuristic_def
      diagonalNull_def)

section \<open>Termination\<close>

text \<open>
  C8.  On a grid whose start is one of its cells and whose multipliers are positive,
  with start and target set, \<open>findPath\<close> returns.  The main loop ends within one
  iteration for each cell: the closed list receives the current node once in each
  iteration, and on return it holds no cell twice and shares no cell with the open
  list, which holds no cell twice either.
\<close>

theorem findPath_terminates:
  assumes "startNode G = Some s" and "targetNode G = Some t" and "inGrid G s" and "positive G"
    and "nat (numRows G) * nat (numCols G) \<le> fuel"
  shows "(\<exists>out A' G'. search (nat (numRows G) * nat (numCols G)) (Some t) s
                         (snd (initSearch A G)) = Some (Inr out, A', G')) \<and>
         (\<exists>path A' G'. findPath fuel A G = Some (Inr path, A', G') \<and>
            distinct (closedList A' @ openList A') \<and>
            length (closedList A') \<le> nat (numRows G) * nat (numCols G))"
proof -
  from initSearch_set [OF assms(1,2)] obtain A1 G1 where
    i: "initSearch A G = (Inr s, A1, G1)" by blast
  have "\<exists>r A' G'. search (nat (numRows G) * nat (numCols G)) (Some t) s (A1, G1) = Some (r, A', G')"
    using i assms(3) by (rule main_loop_terminates) simp
  then have first: "\<exists>out A' G'. search (nat (numRows G) * nat (numCols G)) (Some t) s
                       (snd (initSearch A G)) = Some (Inr out, A', G')"
    using search_target_no_error by (fastforce simp: i)
  from main_loop_terminates [OF i assms(3,5)] obtain r A' G' where
    run: "search fuel (Some t) s (A1, G1) = Some (r, A', G')" by blast
  from search_target_no_error [OF run] obtain out where out: "r = Inr out" by blast
  from search_tidy [OF run tidy_init [OF i assms(3)]]
  have lists: "distinct (closedList A' @ openList A')"
    "length (closedList A') \<le> nat (numRows G) * nat (numCols G)"
    by (simp_all add: card_cells)
  have "\<exists>path. findPath fuel A G = Some (Inr path, A', G')"
  proof (cases out)
    case NoPath
    with run out findPath_NoPath [OF i, of fuel A' G'] assms(2) show ?thesis by auto
  next
    case Found
    with run out have f: "search fuel (Some t) s (A1, G1) = Some (Inr Found, A', G')" by simp
    from reconstruction [OF i assms(2,3,4) f assms(5)] obtain path where
      "buildPath fuel G' s t [t] = Some (Inr path)" by blast
    from findPath_Found [OF i assms(2) f this] show ?thesis by blast
  qed
  with first lists show ?thesis by blast
qed

theorem findPath_terminates_witness:
  "positive exRing \<and> inGrid exRing (1, 0) \<and>
   (\<exists>path A' G'. findPath 12 (newAStar hring hringNull) exRing = Some (Inr path, A', G') \<and>
      distinct (closedList A' @ openList A') \<and> length (closedList A') \<le> 12)"
proof -
  have "startNode exRing = Some (1, 0)" "targetNode exRing = Some (1, 3)" "inGrid exRing (1, 0)"
    "nat (numRows exRing) * nat (numCols exRing) \<le> 12"
    by (simp_all add: exRing_def grid_defs)
  from findPath_terminates [OF this(1,2,3) exRing_positive this(4), of "newAStar hring hringNull"]
    exRing_positive this(3)
  show ?thesis by (simp add: exRing_def grid_defs)
qed

section \<open>The predecessor chain\<close>

text \<open>
  C9.  On a grid whose start is one of its cells and whose multipliers are positive,
  when the main loop reaches the target the reconstruction loop ends, within one
  iteration for each cell, and \<open>findPath\<close> returns a path that begins at the start and
  ends at the target, in which every cell is the predecessor of the next, and in
  which no cell occurs twice: the predecessor chain from the target is acyclic and
  arrives at the start.
\<close>

theorem findPath_reconstruction:
  assumes "startNode G = Some s" and "targetNode G = Some t" and "inGrid G s" and "positive G"
    and "search fuel (Some t) s (snd (initSearch A G)) = Some (Inr Found, A', G')"
    and "nat (numRows G) * nat (numCols G) \<le> fuel"
  shows "\<exists>path. findPath fuel A G = Some (Inr path, A', G') \<and>
           hd path = s \<and> last path = t \<and> distinct path \<and>
           successively (\<lambda>a b. parent (nodes G' b) = Some a) path"
proof -
  from initSearch_set [OF assms(1,2)] obtain A1 G1 where
    i: "initSearch A G = (Inr s, A1, G1)" by blast
  with assms(5) have f: "search fuel (Some t) s (A1, G1) = Some (Inr Found, A', G')" by simp
  from reconstruction [OF i assms(2,3,4) f assms(6)] obtain path where
    p: "buildPath fuel G' s t [t] = Some (Inr path)" "hd path = s" "last path = t"
      "distinct path" "successively (\<lambda>a b. parent (nodes G' b) = Some a) path"
    by blast
  from findPath_Found [OF i assms(2) f p(1)] p(2-) show ?thesis by blast
qed

theorem findPath_reconstruction_witness:
  "positive exDiag \<and> inGrid exDiag (0, 0) \<and>
   (\<exists>path. map_option fst (findPath 4 (newAStar diagonal diagonalNull) exDiag) = Some (Inr path) \<and>
      hd path = (0, 0) \<and> last path = (1, 1) \<and> distinct path)"
proof -
  have h: "startNode exDiag = Some (0, 0)" "targetNode exDiag = Some (1, 1)" "inGrid exDiag (0, 0)"
    "positive exDiag" "nat (numRows exDiag) * nat (numCols exDiag) \<le> 4"
    by (simp_all add: positive_def exDiag_def grid_defs)
  from exDiag_search obtain A' G' where
    "search 4 (Some (1, 1)) (0, 0) (snd (initSearch (newAStar diagonal diagonalNull) exDiag)) =
       Some (Inr Found, A', G')"
    by blast
  from findPath_reconstruction [OF h(1-4) this h(5)] h(3,4) show ?thesis by auto
qed

end
